theory Spec2Isabelle
  imports Main "HOL-Library.Finite_Map" "HOL-Library.Char_ord" "HOL-Library.List_Lexorder"
begin

section \<open>Errors\<close>

text \<open>
  A Go \<^verbatim>\<open>error\<close> value is either created from a plain message (\<^verbatim>\<open>errors.New\<close>,
  \<^verbatim>\<open>fmt.Errorf\<close> without \<^verbatim>\<open>%w\<close>) or wraps another error (\<^verbatim>\<open>fmt.Errorf\<close> with \<^verbatim>\<open>%w\<close>):
  then it carries its whole formatted message and the wrapped error. \<open>RuntimePanic\<close> is
  not a returned value: it stands for the nil-pointer panic of a method call on the
  nil \<^verbatim>\<open>*Component\<close> that a lookup of an unregistered name gives.
\<close>

datatype error = ErrorString string | WrapError string error | RuntimePanic

fun Error :: "error \<Rightarrow> string" where
  "Error (ErrorString s) = s"
| "Error (WrapError s e) = s"
| "Error RuntimePanic = ''invalid memory address or nil pointer dereference''"

text \<open>\<^verbatim>\<open>fmt.Errorf(prefix + "%w", err)\<close>: the message is the prefix followed by the
  message of the wrapped error.\<close>

definition Errorf_w :: "string \<Rightarrow> error \<Rightarrow> error" where
  "Errorf_w prefix err = WrapError (prefix @ Error err) err"

section \<open>Lifecycle (lifecycle.go)\<close>

text \<open>
  \<^verbatim>\<open>type Context map[string]Lifecycle\<close>. A value of type \<open>'l\<close> is a Lifecycle value (an
  object implementing the interface). What the two methods of an object do is user code:
  it is given by a record of two functions that run on a state \<open>'w\<close> of the user's own
  (everything the lifecycles read and write), and return what the Go methods return.
\<close>

type_synonym 'l Context = "string \<rightharpoonup> 'l"

record ('l, 'w) Lifecycle =
  lc_Start :: "'l \<Rightarrow> 'l Context \<Rightarrow> 'w \<Rightarrow> ('l \<times> error option) \<times> 'w"
  lc_Stop :: "'l \<Rightarrow> 'l Context \<Rightarrow> 'w \<Rightarrow> error option \<times> 'w"

text \<open>
  The calls made into user code are recorded, in order, beside the user's state: which
  object's method was invoked, with which context, and what the call returned.
\<close>

datatype 'l call =
  StartCall 'l "'l Context" 'l "error option"
| StopCall 'l "'l Context" "error option"

record ('l, 'w) env =
  world :: 'w
  calls :: "'l call list"

section \<open>Component (component.go)\<close>

text \<open>
  The field \<^verbatim>\<open>instance\<close> is \<open>instance_lc\<close> here; \<^verbatim>\<open>result\<close> is nil (\<open>None\<close>) until a start
  succeeds; the mutex is left out, since the calls are sequential.
\<close>

record 'l Component =
  key :: string
  instance_lc :: 'l
  dependencies :: "string list"
  result :: "'l option"
  started :: bool

definition Define :: "string \<Rightarrow> 'l \<Rightarrow> string list \<Rightarrow> 'l Component" where
  "Define k i deps =
     \<lparr>key = k, instance_lc = i, dependencies = deps, result = None, started = False\<rparr>"

definition Key :: "'l Component \<Rightarrow> string" where
  "Key c = key c"

definition IsStarted :: "'l Component \<Rightarrow> bool" where
  "IsStarted c = started c"

definition GetDependencies :: "'l Component \<Rightarrow> string list" where
  "GetDependencies c = dependencies c"

text \<open>
  \<^verbatim>\<open>func (c *Component) Start(ctx Context) (Lifecycle, error)\<close>. The record is mutated in
  place, so the model returns the record after the call; the printing and the timing are
  left out.
\<close>

definition Component_Start ::
  "('l, 'w) Lifecycle \<Rightarrow> 'l Component \<Rightarrow> 'l Context \<Rightarrow> ('l, 'w) env
     \<Rightarrow> (error + 'l) \<times> 'l Component \<times> ('l, 'w) env" where
  "Component_Start L c ctx e =
     (if started c then (Inr (instance_lc c), c, e)
      else
        (case lc_Start L (instance_lc c) ctx (world e) of
           ((res, err), w') \<Rightarrow>
             (let e' = \<lparr>world = w', calls = calls e @ [StartCall (instance_lc c) ctx res err]\<rparr>
              in case err of
                   Some er \<Rightarrow> (Inl (Errorf_w ''failed to start component: '' er), c, e')
                 | None \<Rightarrow> (Inr res, c\<lparr>result := Some res, started := True\<rparr>, e'))))"

text \<open>\<^verbatim>\<open>func (c *Component) Stop(ctx Context) error\<close>\<close>

definition Component_Stop ::
  "('l, 'w) Lifecycle \<Rightarrow> 'l Component \<Rightarrow> 'l Context \<Rightarrow> ('l, 'w) env
     \<Rightarrow> error option \<times> 'l Component \<times> ('l, 'w) env" where
  "Component_Stop L c ctx e =
     (if \<not> started c then (None, c, e)
      else
        (case lc_Stop L (instance_lc c) ctx (world e) of
           (err, w') \<Rightarrow>
             (let e' = \<lparr>world = w', calls = calls e @ [StopCall (instance_lc c) ctx err]\<rparr>
              in case err of
                   Some er \<Rightarrow> (Some (Errorf_w ''failed to stop component: '' er), c, e')
                 | None \<Rightarrow> (None, c\<lparr>started := False\<rparr>, e'))))"


section \<open>System: cycle detection (system.go)\<close>

text \<open>
  \<^verbatim>\<open>components map[string]*Component\<close> is a finite map from names to records. The maps
  \<^verbatim>\<open>visited\<close> and \<^verbatim>\<open>recStack\<close> of type \<^verbatim>\<open>map[string]bool\<close> are read with the zero value
  \<^verbatim>\<open>false\<close> for an absent key, so each is the set of the names it maps to \<^verbatim>\<open>true\<close>.

  \<^verbatim>\<open>isCyclic\<close> mutates both maps, so the model returns them with the answer. The result
  \<open>None\<close> is the panic of \<^verbatim>\<open>component.GetDependencies()\<close> on the nil pointer that
  \<^verbatim>\<open>s.components[name]\<close> gives for an unregistered name. \<open>isCyclic_deps\<close> is the
  \<^verbatim>\<open>for _, dep := range component.GetDependencies()\<close> loop of \<^verbatim>\<open>isCyclic\<close>, from the
  dependencies still to be looked at.
\<close>

function isCyclic ::
    "(string, 'l Component) fmap \<Rightarrow> string \<Rightarrow> string set \<times> string set
       \<Rightarrow> (bool \<times> string set \<times> string set) option"
  and isCyclic_deps ::
    "(string, 'l Component) fmap \<Rightarrow> string list \<Rightarrow> string set \<times> string set
       \<Rightarrow> (bool \<times> string set \<times> string set) option" where
  "isCyclic cs name (visited, recStack) =
     (case fmlookup cs name of
        None \<Rightarrow> None
      | Some component \<Rightarrow>
          (case isCyclic_deps cs (GetDependencies component)
                  (insert name visited, insert name recStack) of
             None \<Rightarrow> None
           | Some (True, st) \<Rightarrow> Some (True, st)
           | Some (False, (visited', recStack')) \<Rightarrow>
               Some (False, (visited', recStack' - {name}))))"
| "isCyclic_deps cs [] st = Some (False, st)"
| "isCyclic_deps cs (dep # deps) (visited, recStack) =
     (if fmlookup cs dep = None then isCyclic_deps cs deps (visited, recStack)
      else if dep \<notin> visited then
        (case isCyclic cs dep (visited, recStack) of
           None \<Rightarrow> None
         | Some (True, st) \<Rightarrow> Some (True, st)
         | Some (False, st') \<Rightarrow> isCyclic_deps cs deps st')
      else if dep \<in> recStack then Some (True, (visited, recStack))
      else isCyclic_deps cs deps (visited, recStack))"
  by pat_completeness auto


lemma isCyclic_visited_mono_dom:
  "isCyclic_isCyclic_deps_dom (Inl (cs, name, st)) \<Longrightarrow>
     isCyclic cs name st = Some (b, st') \<Longrightarrow> fst st \<subseteq> fst st'"
  "isCyclic_isCyclic_deps_dom (Inr (cs, deps, st)) \<Longrightarrow>
     isCyclic_deps cs deps st = Some (b, st') \<Longrightarrow> fst st \<subseteq> fst st'"
proof (induction cs name st and cs deps st arbitrary: b st' and b st' rule: isCyclic_isCyclic_deps.pinduct)
  case (1 cs name visited recStack)
  from "1.prems" "1.hyps" obtain component b1 st1 where
    c: "fmlookup cs name = Some component" and
    r: "isCyclic_deps cs (GetDependencies component) (insert name visited, insert name recStack) = Some (b1, st1)"
    and st: "fst st' = fst st1"
    by (auto simp: isCyclic.psimps split: option.splits bool.splits prod.splits)
  from "1.IH"[OF c r] st show ?case by auto
next
  case (2 cs st)
  then show ?case by (simp add: isCyclic_deps.psimps)
next
  case (3 cs dep deps visited recStack)
  show ?case
  proof (cases "fmlookup cs dep = None")
    case True
    with "3.prems" "3.hyps" have "isCyclic_deps cs deps (visited, recStack) = Some (b, st')"
      by (simp add: isCyclic_deps.psimps)
    from "3.IH"(1)[OF True this] show ?thesis .
  next
    case reg: False
    show ?thesis
    proof (cases "dep \<in> visited")
      case True
      show ?thesis
      proof (cases "dep \<in> recStack")
        case True
        with reg \<open>dep \<in> visited\<close> "3.prems" "3.hyps" show ?thesis
          by (simp add: isCyclic_deps.psimps del: not_None_eq)
      next
        case False
        with reg \<open>dep \<in> visited\<close> "3.prems" "3.hyps"
        have "isCyclic_deps cs deps (visited, recStack) = Some (b, st')"
          by (simp add: isCyclic_deps.psimps del: not_None_eq)
        from "3.IH"(4)[OF reg _ False this] \<open>dep \<in> visited\<close> show ?thesis by simp
      qed
    next
      case False
      from reg False "3.prems" "3.hyps" obtain b1 st1 where
        r1: "isCyclic cs dep (visited, recStack) = Some (b1, st1)"
        by (auto simp: isCyclic_deps.psimps simp del: not_None_eq split: option.splits)
      from "3.IH"(2)[OF reg False r1] have m1: "visited \<subseteq> fst st1" by simp
      show ?thesis
      proof (cases b1)
        case True
        with reg False r1 "3.prems" "3.hyps" have "st' = st1"
          by (simp add: isCyclic_deps.psimps del: not_None_eq)
        with m1 show ?thesis by simp
      next
        case b1: False
        with reg False r1 "3.prems" "3.hyps" have r2: "isCyclic_deps cs deps st1 = Some (b, st')"
          by (simp add: isCyclic_deps.psimps del: not_None_eq)
        from "3.IH"(3)[OF reg False r1 refl _ r2] b1 m1 show ?thesis by auto
      qed
    qed
  qed
qed

definition isCyclic_measure ::
  "(string, 'l Component) fmap \<times> string \<times> string set \<times> string set
     + (string, 'l Component) fmap \<times> string list \<times> string set \<times> string set
   \<Rightarrow> nat \<times> nat \<times> nat" where
  "isCyclic_measure x =
     (case x of
        Inl (cs, name, visited, recStack) \<Rightarrow> (card (fmdom' cs - insert name visited), 1, 0)
      | Inr (cs, deps, visited, recStack) \<Rightarrow> (card (fmdom' cs - visited), 0, length deps))"

lemma isCyclic_measure_wf:
  "wf (inv_image (less_than <*lex*> less_than <*lex*> less_than) isCyclic_measure)"
  by (rule wf_inv_image) (intro wf_lex_prod wf_less_than)

lemma isCyclic_measure_call:
  "fmlookup cs dep \<noteq> None \<Longrightarrow> dep \<notin> visited \<Longrightarrow>
   (Inl (cs, dep, visited, recStack), Inr (cs, dep # deps, visited, recStack))
        \<in> inv_image (less_than <*lex*> less_than <*lex*> less_than) isCyclic_measure"
proof -
  assume "fmlookup cs dep \<noteq> None" "dep \<notin> visited"
  then have "dep \<in> fmdom' cs - visited" by (auto intro: fmdom'I)
  moreover have "finite (fmdom' cs - visited)" by simp
  ultimately have "card ((fmdom' cs - visited) - {dep}) < card (fmdom' cs - visited)"
    by (rule card_Diff1_less[rotated])
  moreover have "fmdom' cs - insert dep visited = (fmdom' cs - visited) - {dep}" by blast
  ultimately show ?thesis
    by (simp add: isCyclic_measure_def)
qed

lemma isCyclic_measure_next:
  "visited \<subseteq> fst y \<Longrightarrow>
   (Inr (cs, deps, y), Inr (cs, dep # deps, visited, recStack))
        \<in> inv_image (less_than <*lex*> less_than <*lex*> less_than) isCyclic_measure"
proof -
  assume "visited \<subseteq> fst y"
  then have "fmdom' cs - fst y \<subseteq> fmdom' cs - visited" by blast
  then have "card (fmdom' cs - fst y) \<le> card (fmdom' cs - visited)"
    by (rule card_mono[rotated]) simp
  then show ?thesis
    by (cases y) (auto simp: isCyclic_measure_def)
qed

termination isCyclic
  apply (relation "inv_image (less_than <*lex*> less_than <*lex*> less_than) isCyclic_measure")
       apply (rule isCyclic_measure_wf)
      apply (simp add: isCyclic_measure_def)
     apply (simp add: isCyclic_measure_def)
    apply (erule (1) isCyclic_measure_call)
   apply (rule isCyclic_measure_next)
   apply (drule isCyclic_visited_mono_dom(1))
    apply auto[2]
  apply (simp add: isCyclic_measure_def)
  done

declare isCyclic.simps [simp del]

section \<open>System: topological order (system.go)\<close>

text \<open>
  A read of an absent key of \<^verbatim>\<open>graph\<close> gives the nil slice, of \<^verbatim>\<open>inDegree\<close> gives 0.
  The counters are Go \<^verbatim>\<open>int\<close>s; they stay within the total number of declared
  dependencies, so they are modelled as unbounded integers.
\<close>

definition graph_get :: "(string, string list) fmap \<Rightarrow> string \<Rightarrow> string list" where
  "graph_get graph k = (case fmlookup graph k of None \<Rightarrow> [] | Some ns \<Rightarrow> ns)"

definition inDegree_get :: "(string, int) fmap \<Rightarrow> string \<Rightarrow> int" where
  "inDegree_get inDegree k = (case fmlookup inDegree k of None \<Rightarrow> 0 | Some n \<Rightarrow> n)"

text \<open>
  A \<^verbatim>\<open>range\<close> over a Go map visits its keys in an order that the language leaves
  open. Each such loop is modelled as a recursion over a list of names, the order of
  that run of the loop, which is a parameter of the model.

  First loop of \<^verbatim>\<open>getOrderedComponents\<close>: every component gets in-degree 0 and no
  dependents.
\<close>

fun init_graph ::
  "string list \<Rightarrow> (string, string list) fmap \<times> (string, int) fmap
     \<Rightarrow> (string, string list) fmap \<times> (string, int) fmap" where
  "init_graph [] gd = gd"
| "init_graph (name # names) (graph, inDegree) =
     init_graph names (fmupd name [] graph, fmupd name 0 inDegree)"

text \<open>
  Second loop: \<open>add_edges\<close> is the inner loop over the dependencies of \<open>name\<close>,
  \<open>build_graph\<close> the outer loop over the components (a name that is not a key of the
  map is not visited by a \<^verbatim>\<open>range\<close>).
\<close>

fun add_edges ::
  "(string, 'l Component) fmap \<Rightarrow> string \<Rightarrow> string list
     \<Rightarrow> (string, string list) fmap \<times> (string, int) fmap
     \<Rightarrow> error + (string, string list) fmap \<times> (string, int) fmap" where
  "add_edges cs name [] gd = Inr gd"
| "add_edges cs name (dep # deps) (graph, inDegree) =
     (if fmlookup cs dep = None
      then Inl (ErrorString (''dependency '' @ dep @ '' not found for component '' @ name))
      else add_edges cs name deps
             (fmupd dep (graph_get graph dep @ [name]) graph,
              fmupd name (inDegree_get inDegree name + 1) inDegree))"

fun build_graph ::
  "(string, 'l Component) fmap \<Rightarrow> string list
     \<Rightarrow> (string, string list) fmap \<times> (string, int) fmap
     \<Rightarrow> error + (string, string list) fmap \<times> (string, int) fmap" where
  "build_graph cs [] gd = Inr gd"
| "build_graph cs (name # names) gd =
     (case fmlookup cs name of
        None \<Rightarrow> build_graph cs names gd
      | Some component \<Rightarrow>
          (case add_edges cs name (GetDependencies component) gd of
             Inl err \<Rightarrow> Inl err
           | Inr gd' \<Rightarrow> build_graph cs names gd'))"

text \<open>Third loop: the names whose in-degree is 0, in the order of the \<^verbatim>\<open>range\<close> over \<^verbatim>\<open>inDegree\<close>.\<close>

definition sources :: "string list \<Rightarrow> (string, int) fmap \<Rightarrow> string list" where
  "sources ks inDegree = filter (\<lambda>name. fmlookup inDegree name = Some 0) ks"

text \<open>The loop \<^verbatim>\<open>for _, neighbor := range graph[current]\<close>.\<close>

fun reduce_neighbors ::
  "string list \<Rightarrow> (string, int) fmap \<times> string list \<Rightarrow> (string, int) fmap \<times> string list" where
  "reduce_neighbors [] dq = dq"
| "reduce_neighbors (neighbor # neighbors) (inDegree, queue) =
     (let inDegree' = fmupd neighbor (inDegree_get inDegree neighbor - 1) inDegree
      in reduce_neighbors neighbors
           (inDegree', if inDegree_get inDegree' neighbor = 0 then queue @ [neighbor] else queue))"

text \<open>
  The loop \<^verbatim>\<open>for len(queue) > 0\<close> ends: a name enters the queue only when its counter
  falls from 1 to 0, so the length of the queue plus the number of names with a
  positive counter decreases in every round.
\<close>

definition pending :: "(string, int) fmap \<Rightarrow> string set" where
  "pending inDegree = {n \<in> fmdom' inDegree. 0 < inDegree_get inDegree n}"

lemma finite_pending: "finite (pending d)"
  by (simp add: pending_def)

lemma inDegree_get_fmupd: "inDegree_get (fmupd k v d) k' = (if k = k' then v else inDegree_get d k')"
  by (simp add: inDegree_get_def)

lemma pending_iff: "n \<in> pending d \<longleftrightarrow> (\<exists>v. fmlookup d n = Some v \<and> 0 < v)"
  by (cases "fmlookup d n") (auto simp: pending_def inDegree_get_def fmlookup_dom'_iff)

lemma pending_fmupd:
  "pending (fmupd n v d) = (if 0 < v then insert n (pending d) else pending d - {n})"
  by (rule set_eqI) (simp add: pending_iff)

lemma reduce_neighbors_measure:
  "reduce_neighbors ns (d, q) = (d', q') \<Longrightarrow>
     length q' + card (pending d') \<le> length q + card (pending d)"
proof (induction ns arbitrary: d q)
  case Nil
  then show ?case by simp
next
  case (Cons n ns)
  let ?v = "inDegree_get d n - 1"
  let ?d1 = "fmupd n ?v d"
  let ?q1 = "if ?v = 0 then q @ [n] else q"
  from Cons.prems have "reduce_neighbors ns (?d1, ?q1) = (d', q')"
    by (simp add: Let_def inDegree_get_fmupd)
  from Cons.IH[OF this]
  have le: "length q' + card (pending d') \<le> length ?q1 + card (pending ?d1)" .
  have "length ?q1 + card (pending ?d1) \<le> length q + card (pending d)"
  proof (cases "?v = 0")
    case True
    then have "0 < inDegree_get d n" by simp
    then have "n \<in> pending d"
      by (cases "fmlookup d n") (simp_all add: pending_iff inDegree_get_def)
    then have "card (pending d - {n}) < card (pending d)"
      by (intro card_Diff1_less finite_pending)
    with True show ?thesis by (simp add: pending_fmupd)
  next
    case False
    have "0 < ?v \<Longrightarrow> n \<in> pending d"
      by (cases "fmlookup d n") (simp_all add: pending_iff inDegree_get_def)
    then have "pending ?d1 \<subseteq> pending d"
      by (auto simp: pending_fmupd)
    then have "card (pending ?d1) \<le> card (pending d)"
      by (intro card_mono finite_pending)
    with False show ?thesis by simp
  qed
  with le show ?case by simp
qed

text \<open>
  \<^verbatim>\<open>sort.Strings\<close> sorts bytewise, which is the lexicographic order of \<open>string\<close>; equal
  strings are the same value, so the sorted queue is \<open>sort queue\<close>.
\<close>

function topo_sort ::
  "(string, string list) fmap \<Rightarrow> string list \<Rightarrow> string list \<Rightarrow> (string, int) fmap
     \<Rightarrow> string list" where
  "topo_sort graph queue res inDegree =
     (if queue = [] then res
      else
        (let sorted = sort queue; current = hd sorted
         in case reduce_neighbors (graph_get graph current) (inDegree, tl sorted) of
              (inDegree', queue') \<Rightarrow> topo_sort graph queue' (res @ [current]) inDegree'))"
  by pat_completeness auto

termination topo_sort
proof (relation "measure (\<lambda>(graph, queue, res, inDegree). length queue + card (pending inDegree))",
       goal_cases)
  case 1
  show ?case by simp
next
  case (2 graph queue res inDegree sorted current x y)
  from 2(4) have "reduce_neighbors (graph_get graph current) (inDegree, tl sorted) = (x, y)"
    by simp
  from reduce_neighbors_measure[OF this] 2(1,2)
  show ?case by (cases queue) auto
qed

declare topo_sort.simps [simp del]

text \<open>
  \<^verbatim>\<open>getOrderedComponents\<close>, with the orders \<open>ks1\<close>, \<open>ks2\<close>, \<open>ks3\<close> of its three \<^verbatim>\<open>range\<close>
  loops.
\<close>

definition getOrderedComponents ::
  "(string, 'l Component) fmap \<Rightarrow> string list \<Rightarrow> string list \<Rightarrow> string list
     \<Rightarrow> error + string list" where
  "getOrderedComponents cs ks1 ks2 ks3 =
     (case build_graph cs ks2 (init_graph ks1 (fmempty, fmempty)) of
        Inl err \<Rightarrow> Inl err
      | Inr (graph, inDegree) \<Rightarrow>
          (let res = topo_sort graph (sources ks3 inDegree) [] inDegree
           in if length res \<noteq> card (fmdom' cs)
              then Inl (ErrorString ''cyclic dependency detected'')
              else Inr res))"

section \<open>System: start and stop (system.go)\<close>

text \<open>
  \<^verbatim>\<open>checkCyclicDependencies\<close>: \<open>check_loop\<close> is its \<^verbatim>\<open>range\<close> over the components, in the
  order \<open>ks\<close>.
\<close>

fun check_loop ::
  "(string, 'l Component) fmap \<Rightarrow> string list \<Rightarrow> string set \<times> string set \<Rightarrow> error option" where
  "check_loop cs [] st = None"
| "check_loop cs (name # names) (visited, recStack) =
     (if name \<notin> visited then
        (case isCyclic cs name (visited, recStack) of
           None \<Rightarrow> Some RuntimePanic
         | Some (True, st') \<Rightarrow>
             Some (ErrorString (''cyclic dependency detected involving component '' @ name))
         | Some (False, st') \<Rightarrow> check_loop cs names st')
      else check_loop cs names (visited, recStack))"

definition checkCyclicDependencies ::
  "(string, 'l Component) fmap \<Rightarrow> string list \<Rightarrow> error option" where
  "checkCyclicDependencies cs ks = check_loop cs ks ({}, {})"

text \<open>
  The orders of the four \<^verbatim>\<open>range\<close> loops over maps that one \<^verbatim>\<open>Start\<close> runs (\<^verbatim>\<open>Stop\<close> runs
  the last three): they are valid when each lists every registered name once.
\<close>

record ranges =
  check_range :: "string list"
  init_range :: "string list"
  build_range :: "string list"
  queue_range :: "string list"

definition range_of :: "(string, 'a) fmap \<Rightarrow> string list \<Rightarrow> bool" where
  "range_of m ks \<longleftrightarrow> distinct ks \<and> set ks = fmdom' m"

definition valid_ranges :: "(string, 'a) fmap \<Rightarrow> ranges \<Rightarrow> bool" where
  "valid_ranges m r \<longleftrightarrow>
     range_of m (check_range r) \<and> range_of m (init_range r)
     \<and> range_of m (build_range r) \<and> range_of m (queue_range r)"

text \<open>
  \<^verbatim>\<open>components map[string]*Component\<close>: the map holds a pointer per name; every name is
  taken to have a record of its own, as \<^verbatim>\<open>Define\<close> makes one, and no pointer is nil. The
  lifecycles work on their own state only: they do not write to the contexts they are
  given nor to the component records.
\<close>

record 'l System =
  components :: "(string, 'l Component) fmap"
  sys_started :: bool
  sys_context :: "'l Context"

definition CreateSystem :: "(string, 'l Component) fmap \<Rightarrow> 'l System" where
  "CreateSystem cs = \<lparr>components = cs, sys_started = False, sys_context = Map.empty\<rparr>"

definition GetContext :: "'l System \<Rightarrow> 'l Context" where
  "GetContext s = sys_context s"

text \<open>
  The inner loop of \<^verbatim>\<open>Start\<close> that fills \<^verbatim>\<open>ctx\<close> for the component \<open>name\<close>, from the
  dependencies still to be looked at.
\<close>

fun dependency_context ::
  "(string, 'l Component) fmap \<Rightarrow> string \<Rightarrow> string list \<Rightarrow> 'l Context \<Rightarrow> error + 'l Context" where
  "dependency_context cs name [] ctx = Inr ctx"
| "dependency_context cs name (dep # deps) ctx =
     (case fmlookup cs dep of
        None \<Rightarrow> Inl (ErrorString (''dependency '' @ dep @ '' not found for component '' @ name))
      | Some depComponent \<Rightarrow>
          if \<not> IsStarted depComponent
          then Inl (ErrorString (''dependency '' @ dep @ '' not started for component '' @ name))
          else dependency_context cs name deps (ctx(dep \<mapsto> instance_lc depComponent)))"

text \<open>
  The loop \<^verbatim>\<open>for _, name := range orderedComponents\<close> of \<^verbatim>\<open>Start\<close>. The component record is
  mutated through its pointer, so the started record replaces the old one under its name.
\<close>

fun start_components ::
  "('l, 'w) Lifecycle \<Rightarrow> string list \<Rightarrow> 'l System \<Rightarrow> ('l, 'w) env
     \<Rightarrow> error option \<times> 'l System \<times> ('l, 'w) env" where
  "start_components L [] s e = (None, s, e)"
| "start_components L (name # names) s e =
     (case fmlookup (components s) name of
        None \<Rightarrow> (Some RuntimePanic, s, e)
      | Some component \<Rightarrow>
          (case dependency_context (components s) name (GetDependencies component) Map.empty of
             Inl err \<Rightarrow> (Some err, s, e)
           | Inr ctx \<Rightarrow>
               (case Component_Start L component ctx e of
                  (r, component', e') \<Rightarrow>
                    (let s' = s\<lparr>components := fmupd name component' (components s)\<rparr>
                     in case r of
                          Inl err \<Rightarrow>
                            (Some (Errorf_w (''failed to start component '' @ name @ '': '') err),
                             s', e')
                        | Inr lifecycle \<Rightarrow>
                            start_components L names
                              (s'\<lparr>sys_context := (sys_context s')(name \<mapsto> lifecycle)\<rparr>) e'))))"

definition System_Start ::
  "('l, 'w) Lifecycle \<Rightarrow> ranges \<Rightarrow> 'l System \<Rightarrow> ('l, 'w) env
     \<Rightarrow> error option \<times> 'l System \<times> ('l, 'w) env" where
  "System_Start L r s e =
     (if sys_started s then (None, s, e)
      else
        (case checkCyclicDependencies (components s) (check_range r) of
           Some err \<Rightarrow> (Some err, s, e)
         | None \<Rightarrow>
             (case getOrderedComponents (components s) (init_range r) (build_range r)
                     (queue_range r) of
                Inl err \<Rightarrow> (Some err, s, e)
              | Inr orderedComponents \<Rightarrow>
                  (case start_components L orderedComponents s e of
                     (Some err, s', e') \<Rightarrow> (Some err, s', e')
                   | (None, s', e') \<Rightarrow> (None, s'\<lparr>sys_started := True\<rparr>, e')))))"

text \<open>
  The loop \<^verbatim>\<open>for _, name := range orderedComponents\<close> of \<^verbatim>\<open>Stop\<close>, with \<^verbatim>\<open>lastErr\<close>; every
  component is stopped with the whole \<^verbatim>\<open>s.context\<close>.
\<close>

fun stop_components ::
  "('l, 'w) Lifecycle \<Rightarrow> string list \<Rightarrow> 'l System \<Rightarrow> ('l, 'w) env \<Rightarrow> error option
     \<Rightarrow> error option \<times> 'l System \<times> ('l, 'w) env" where
  "stop_components L [] s e lastErr = (lastErr, s, e)"
| "stop_components L (name # names) s e lastErr =
     (case fmlookup (components s) name of
        None \<Rightarrow> (Some RuntimePanic, s, e)
      | Some component \<Rightarrow>
          (case Component_Stop L component (sys_context s) e of
             (r, component', e') \<Rightarrow>
               stop_components L names (s\<lparr>components := fmupd name component' (components s)\<rparr>) e'
                 (case r of
                    Some err \<Rightarrow> Some (Errorf_w (''failed to stop component '' @ name @ '': '') err)
                  | None \<Rightarrow> lastErr)))"

text \<open>\<^verbatim>\<open>Stop\<close>: the swap loop reverses \<^verbatim>\<open>orderedComponents\<close> in place, which is \<open>rev\<close>.\<close>

definition System_Stop ::
  "('l, 'w) Lifecycle \<Rightarrow> ranges \<Rightarrow> 'l System \<Rightarrow> ('l, 'w) env
     \<Rightarrow> error option \<times> 'l System \<times> ('l, 'w) env" where
  "System_Stop L r s e =
     (if \<not> sys_started s then (None, s, e)
      else
        (case getOrderedComponents (components s) (init_range r) (build_range r)
                (queue_range r) of
           Inl err \<Rightarrow> (Some err, s, e)
         | Inr orderedComponents \<Rightarrow>
             (case stop_components L (rev orderedComponents) s e None of
                (lastErr, s', e') \<Rightarrow> (lastErr, s'\<lparr>sys_started := False\<rparr>, e'))))"

section \<open>The dependency graph\<close>

text \<open>
  The edges that exist among registered names: \<open>(n, d)\<close> when the component registered
  as \<open>n\<close> declares the dependency \<open>d\<close> and \<open>d\<close> is registered too. The component set has
  a cycle when this relation is not acyclic.
\<close>

definition dep_rel :: "(string, 'l Component) fmap \<Rightarrow> (string \<times> string) set" where
  "dep_rel cs = {(n, d). \<exists>c. fmlookup cs n = Some c \<and> d \<in> set (GetDependencies c) \<and> d \<in> fmdom' cs}"

text \<open>
  A set of names is settled when it is closed under the edges and none of its names lies
  on a cycle; the names that the traversal has left (visited and off the recursion stack)
  are settled.
\<close>

definition settled :: "(string, 'l Component) fmap \<Rightarrow> string set \<Rightarrow> bool" where
  "settled cs B \<longleftrightarrow>
     (\<forall>u\<in>B. \<forall>v. (u, v) \<in> dep_rel cs \<longrightarrow> v \<in> B) \<and> (\<forall>u\<in>B. (u, u) \<notin> (dep_rel cs)\<^sup>+)"


text \<open>The dependencies declared by the component registered as \<open>n\<close>.\<close>

definition deps_of :: "(string, 'l Component) fmap \<Rightarrow> string \<Rightarrow> string list" where
  "deps_of cs n = (case fmlookup cs n of None \<Rightarrow> [] | Some c \<Rightarrow> GetDependencies c)"

definition deps_registered :: "(string, 'l Component) fmap \<Rightarrow> bool" where
  "deps_registered cs \<longleftrightarrow> (\<forall>n\<in>fmdom' cs. set (deps_of cs n) \<subseteq> fmdom' cs)"

text \<open>
  The names that are ready once the names in \<open>E\<close> have been emitted: registered, not yet
  emitted, with every declared dependency emitted.
\<close>

definition ready :: "(string, 'l Component) fmap \<Rightarrow> string set \<Rightarrow> string set" where
  "ready cs E = {n \<in> fmdom' cs. n \<notin> E \<and> set (deps_of cs n) \<subseteq> E}"

text \<open>
  A sequence in which every element was ready when it was emitted, and was the least
  ready name at that moment.
\<close>

definition least_ready_sequence :: "(string, 'l Component) fmap \<Rightarrow> string list \<Rightarrow> bool" where
  "least_ready_sequence cs xs \<longleftrightarrow>
     (\<forall>i<length xs. xs ! i \<in> ready cs (set (take i xs))
        \<and> (\<forall>n\<in>ready cs (set (take i xs)). xs ! i \<le> n))"

text \<open>What the first two loops of \<^verbatim>\<open>getOrderedComponents\<close> build.\<close>

definition graph_of ::
  "(string, 'l Component) fmap \<Rightarrow> (string, string list) fmap \<Rightarrow> (string, int) fmap \<Rightarrow> bool" where
  "graph_of cs graph inDegree \<longleftrightarrow>
     (\<forall>x y. count_list (graph_get graph x) y = count_list (deps_of cs y) x)
     \<and> (\<forall>y. fmlookup inDegree y
            = (if y \<in> fmdom' cs then Some (int (length (deps_of cs y))) else None))"

text \<open>The invariant of the loop \<^verbatim>\<open>for len(queue) > 0\<close>.\<close>

definition kahn_inv ::
  "(string, 'l Component) fmap \<Rightarrow> (string, string list) fmap \<Rightarrow> string list \<Rightarrow> string list
     \<Rightarrow> (string, int) fmap \<Rightarrow> bool" where
  "kahn_inv cs graph queue res inDegree \<longleftrightarrow>
     least_ready_sequence cs res \<and> distinct queue \<and> set queue = ready cs (set res)
     \<and> (\<forall>x y. count_list (graph_get graph x) y = count_list (deps_of cs y) x)
     \<and> (\<forall>n\<in>fmdom' cs. fmlookup inDegree n
            = Some (int (length (filter (\<lambda>x. x \<notin> set res) (deps_of cs n)))))"

section \<open>Describing runs of the start and stop loops\<close>

text \<open>
  The context that \<^verbatim>\<open>Start\<close> builds for a component with the declared dependencies
  \<open>deps\<close>: each declared name is mapped to the \<^verbatim>\<open>instance\<close> field of the dependency's
  record.
\<close>

definition dependency_view :: "(string, 'l Component) fmap \<Rightarrow> string list \<Rightarrow> 'l Context" where
  "dependency_view cs deps =
     (\<lambda>d. if d \<in> set deps then map_option instance_lc (fmlookup cs d) else None)"

text \<open>Two component maps with the same names, dependencies and instances.\<close>

definition same_graph :: "(string, 'l Component) fmap \<Rightarrow> (string, 'l Component) fmap \<Rightarrow> bool" where
  "same_graph cs cs' \<longleftrightarrow>
     (\<forall>n. map_option (\<lambda>c. (dependencies c, instance_lc c, key c)) (fmlookup cs n)
          = map_option (\<lambda>c. (dependencies c, instance_lc c, key c)) (fmlookup cs' n))"

text \<open>The component registered as \<open>n\<close> exists and is started.\<close>

definition is_started :: "(string, 'l Component) fmap \<Rightarrow> string \<Rightarrow> bool" where
  "is_started cs n = (case fmlookup cs n of None \<Rightarrow> False | Some c \<Rightarrow> started c)"

text \<open>
  A system that is up: marked started, with a valid dependency graph and every component
  record started. This is what a successful \<^verbatim>\<open>Start\<close> leaves.
\<close>

definition running :: "'l System \<Rightarrow> bool" where
  "running s \<longleftrightarrow>
     sys_started s \<and> deps_registered (components s) \<and> acyclic (dep_rel (components s))
     \<and> (\<forall>n\<in>fmdom' (components s). is_started (components s) n)"

text \<open>
  The stop failures among the outcomes of the stop calls, in the order of the calls, and
  the error that \<^verbatim>\<open>Stop\<close> returns for them: the last one, wrapped by \<^verbatim>\<open>Component.Stop\<close>
  and then by \<^verbatim>\<open>System.Stop\<close> with the component's name.
\<close>

definition stop_failures :: "(string \<times> error option) list \<Rightarrow> (string \<times> error) list" where
  "stop_failures outs = List.map_filter (\<lambda>(n, out). map_option (Pair n) out) outs"

definition stop_error :: "string \<times> error \<Rightarrow> error" where
  "stop_error f =
     Errorf_w (''failed to stop component '' @ fst f @ '': '')
       (Errorf_w ''failed to stop component: '' (snd f))"

definition last_stop_error :: "error option \<Rightarrow> (string \<times> error option) list \<Rightarrow> error option" where
  "last_stop_error lastErr outs =
     (case stop_failures outs of [] \<Rightarrow> lastErr | f # fs \<Rightarrow> Some (stop_error (last (f # fs))))"

section \<open>Lifecycle implementations used as concrete inputs\<close>

text \<open>
  The test file's \<^verbatim>\<open>MockComponent\<close>: \<^verbatim>\<open>Start\<close> sets \<^verbatim>\<open>StartCalled\<close> and returns the mock
  itself with its \<^verbatim>\<open>StartError\<close>; \<^verbatim>\<open>Stop\<close> sets \<^verbatim>\<open>StopCalled\<close> and returns its
  \<^verbatim>\<open>StopError\<close>. A mock is named by its \<^verbatim>\<open>Key\<close>; the user state is the set of mocks with
  \<^verbatim>\<open>StartCalled\<close> and the set of mocks with \<^verbatim>\<open>StopCalled\<close>.
\<close>

definition MockComponent ::
  "(string \<rightharpoonup> error) \<Rightarrow> (string \<rightharpoonup> error) \<Rightarrow> (string, string set \<times> string set) Lifecycle" where
  "MockComponent StartError StopError =
     \<lparr>lc_Start = (\<lambda>m ctx (sc, pc). ((m, StartError m), (insert m sc, pc))),
      lc_Stop = (\<lambda>m ctx (sc, pc). (StopError m, (sc, insert m pc)))\<rparr>"

definition mock_env0 :: "(string, string set \<times> string set) env" where
  "mock_env0 = \<lparr>world = ({}, {}), calls = []\<rparr>"

text \<open>
  A lifecycle whose \<^verbatim>\<open>Start\<close> returns another Lifecycle value than the receiver (a handle
  made by the start), which the interface \<^verbatim>\<open>Start(ctx Context) (Lifecycle, error)\<close> allows.
\<close>

definition HandleComponent :: "(string, unit) Lifecycle" where
  "HandleComponent =
     \<lparr>lc_Start = (\<lambda>m ctx w. ((m @ ''.handle'', None), w)),
      lc_Stop = (\<lambda>m ctx w. (None, w))\<rparr>"

definition handle_env0 :: "(string, unit) env" where
  "handle_env0 = \<lparr>world = (), calls = []\<rparr>"

text \<open>The component set of \<^verbatim>\<open>TestSystemStartStop\<close>.\<close>

definition compABC :: "(string, string Component) fmap" where
  "compABC = fmap_of_list
     [(''compA'', Define ''compA'' ''compA'' []),
      (''compB'', Define ''compB'' ''compB'' [''compA'']),
      (''compC'', Define ''compC'' ''compC'' [''compA'', ''compB''])]"

definition rangesABC :: ranges where
  "rangesABC = \<lparr>check_range = [''compC'', ''compA'', ''compB''],
                init_range = [''compB'', ''compC'', ''compA''],
                build_range = [''compC'', ''compB'', ''compA''],
                queue_range = [''compB'', ''compA'', ''compC'']\<rparr>"

text \<open>The component set of \<^verbatim>\<open>TestSystemCyclicDependency\<close>.\<close>

definition compCycle :: "(string, string Component) fmap" where
  "compCycle = fmap_of_list
     [(''compA'', Define ''compA'' ''compA'' [''compC'']),
      (''compB'', Define ''compB'' ''compB'' [''compA'']),
      (''compC'', Define ''compC'' ''compC'' [''compB''])]"

text \<open>The component set of \<^verbatim>\<open>TestMissingDependency\<close>, and an order of its only name.\<close>

definition compMissing :: "(string, string Component) fmap" where
  "compMissing = fmap_of_list [(''compA'', Define ''compA'' ''compA'' [''nonExistent''])]"

definition rangesA :: ranges where
  "rangesA = \<lparr>check_range = [''compA''], init_range = [''compA''],
              build_range = [''compA''], queue_range = [''compA'']\<rparr>"

text \<open>A component that declares itself and an unregistered name as dependencies.\<close>

definition compSelfMissing :: "(string, string Component) fmap" where
  "compSelfMissing = fmap_of_list
     [(''compA'', Define ''compA'' ''compA'' [''compA'', ''nonExistent''])]"

text \<open>Another valid choice of the four orders for three components.\<close>

definition rangesABC' :: ranges where
  "rangesABC' = \<lparr>check_range = [''compA'', ''compB'', ''compC''],
                 init_range = [''compC'', ''compB'', ''compA''],
                 build_range = [''compA'', ''compC'', ''compB''],
                 queue_range = [''compC'', ''compA'', ''compB'']\<rparr>"

text \<open>What a recorded call was made on, with which context, and what it returned.\<close>

fun call_receiver :: "'l call \<Rightarrow> 'l" where
  "call_receiver (StartCall l ctx res err) = l"
| "call_receiver (StopCall l ctx err) = l"

fun call_context :: "'l call \<Rightarrow> 'l Context" where
  "call_context (StartCall l ctx res err) = ctx"
| "call_context (StopCall l ctx err) = ctx"



text \<open>The system of \<^verbatim>\<open>TestSystemStartStop\<close> after its \<^verbatim>\<open>Start\<close>, with mocks that do not fail.\<close>

definition startedABC :: "string System" where
  "startedABC =
     fst (snd (System_Start (MockComponent Map.empty Map.empty) rangesABC (CreateSystem compABC)
                 mock_env0))"

text \<open>The component set of \<^verbatim>\<open>TestSystemStartError\<close> and two orders of its names.\<close>

definition compAB :: "(string, string Component) fmap" where
  "compAB = fmap_of_list
     [(''compA'', Define ''compA'' ''compA'' []),
      (''compB'', Define ''compB'' ''compB'' [''compA''])]"

definition rangesAB :: ranges where
  "rangesAB = \<lparr>check_range = [''compB'', ''compA''], init_range = [''compA'', ''compB''],
               build_range = [''compB'', ''compA''], queue_range = [''compB'', ''compA'']\<rparr>"

text \<open>Two components whose lifecycle starts return handles: \<open>api\<close> depends on \<open>db\<close>.\<close>

definition compHandles :: "(string, string Component) fmap" where
  "compHandles = fmap_of_list
     [(''db'', Define ''db'' ''db'' []),
      (''api'', Define ''api'' ''api'' [''db''])]"

definition rangesHandles :: ranges where
  "rangesHandles = \<lparr>check_range = [''api'', ''db''], init_range = [''db'', ''api''],
                    build_range = [''api'', ''db''], queue_range = [''db'', ''api'']\<rparr>"








text \<open>
  Three components of which two are ready at once: \<open>compA\<close> depends on \<open>compB\<close>, and
  \<open>compB\<close> and \<open>compC\<close> depend on nothing.
\<close>

definition compTie :: "(string, string Component) fmap" where
  "compTie = fmap_of_list
     [(''compA'', Define ''compA'' ''compA'' [''compB'']),
      (''compB'', Define ''compB'' ''compB'' []),
      (''compC'', Define ''compC'' ''compC'' [])]"

section \<open>Component records: start and stop\<close>

lemma Component_Start_started:
  "started c \<Longrightarrow> Component_Start L c ctx e = (Inr (instance_lc c), c, e)"
  by (simp add: Component_Start_def)

lemma Component_Stop_not_started:
  "\<not> started c \<Longrightarrow> Component_Stop L c ctx e = (None, c, e)"
  by (simp add: Component_Stop_def)

text \<open>
  C2 as stated fails: when the lifecycle's stop returns an error, \<^verbatim>\<open>Component.Stop\<close>
  returns before \<^verbatim>\<open>c.started = false\<close>, so the record stays started; and the message
  it returns is \<^verbatim>\<open>failed to stop component: \<close> followed by the lifecycle's message,
  without the component's name. Here the component \<open>db\<close> is started and its stop fails
  with \<open>boom\<close>.
\<close>

theorem C2_stop_error_counterexample:
  "Component_Stop (MockComponent Map.empty [''db'' \<mapsto> ErrorString ''boom''])
       \<lparr>key = ''db'', instance_lc = ''db'', dependencies = [], result = Some ''db'', started = True\<rparr>
       Map.empty mock_env0
   = (Some (WrapError ''failed to stop component: boom'' (ErrorString ''boom'')),
      \<lparr>key = ''db'', instance_lc = ''db'', dependencies = [], result = Some ''db'', started = True\<rparr>,
      \<lparr>world = ({}, {''db''}), calls = [StopCall ''db'' Map.empty (Some (ErrorString ''boom''))]\<rparr>)"
  by (simp add: Component_Stop_def MockComponent_def mock_env0_def Errorf_w_def)

text \<open>
  C2, amended: on a started record \<^verbatim>\<open>Component.Stop\<close> invokes the wrapped lifecycle's stop
  once, with the context it was given. When the stop succeeds, the started flag becomes
  false, nothing else in the record changes and nil is returned. When the stop returns
  an error, the record is left as it was (still started) and the error is returned
  wrapped under the fixed prefix \<^verbatim>\<open>failed to stop component: \<close> (which does not name the
  component).
\<close>

theorem C2_Component_Stop_on_started:
  assumes "started c"
  shows "calls (snd (snd (Component_Stop L c ctx e)))
      = calls e @ [StopCall (instance_lc c) ctx (fst (lc_Stop L (instance_lc c) ctx (world e)))]
    \<and> world (snd (snd (Component_Stop L c ctx e))) = snd (lc_Stop L (instance_lc c) ctx (world e))
    \<and> (fst (lc_Stop L (instance_lc c) ctx (world e)) = None \<longrightarrow>
          fst (Component_Stop L c ctx e) = None
          \<and> fst (snd (Component_Stop L c ctx e)) = c\<lparr>started := False\<rparr>)
    \<and> (\<forall>er. fst (lc_Stop L (instance_lc c) ctx (world e)) = Some er \<longrightarrow>
          fst (Component_Stop L c ctx e)
            = Some (WrapError (''failed to stop component: '' @ Error er) er)
          \<and> fst (snd (Component_Stop L c ctx e)) = c)"
  using assms
  by (cases "lc_Stop L (instance_lc c) ctx (world e)")
     (auto simp: Component_Stop_def Errorf_w_def Let_def split: option.splits)

theorem C2_Component_Stop_on_started_witness:
  "started \<lparr>key = ''db'', instance_lc = ''db'', dependencies = [], result = Some ''db'', started = True\<rparr>
   \<and> fst (Component_Stop (MockComponent Map.empty [''db'' \<mapsto> ErrorString ''boom''])
        \<lparr>key = ''db'', instance_lc = ''db'', dependencies = [], result = Some ''db'', started = True\<rparr>
        Map.empty mock_env0)
      = Some (WrapError (''failed to stop component: '' @ Error (ErrorString ''boom'')) (ErrorString ''boom''))
   \<and> fst (Component_Stop (MockComponent Map.empty Map.empty)
        \<lparr>key = ''db'', instance_lc = ''db'', dependencies = [], result = Some ''db'', started = True\<rparr>
        Map.empty mock_env0) = None
   \<and> \<not> started (fst (snd (Component_Stop (MockComponent Map.empty Map.empty)
        \<lparr>key = ''db'', instance_lc = ''db'', dependencies = [], result = Some ''db'', started = True\<rparr>
        Map.empty mock_env0)))"
  using C2_Component_Stop_on_started
      [of "\<lparr>key = ''db'', instance_lc = ''db'', dependencies = [], result = Some ''db'', started = True\<rparr>"
          "MockComponent Map.empty [''db'' \<mapsto> ErrorString ''boom'']" Map.empty mock_env0]
    C2_Component_Stop_on_started
      [of "\<lparr>key = ''db'', instance_lc = ''db'', dependencies = [], result = Some ''db'', started = True\<rparr>"
          "MockComponent Map.empty Map.empty" Map.empty mock_env0]
  by (simp add: MockComponent_def mock_env0_def)

text \<open>
  C3 at a concrete input: the component \<open>db\<close> wraps a lifecycle whose start returns the
  handle \<open>db.handle\<close>. The first \<^verbatim>\<open>Component.Start\<close> invokes the lifecycle, caches
  \<open>db.handle\<close> in \<^verbatim>\<open>result\<close> and returns it. The second \<^verbatim>\<open>Component.Start\<close>, on the
  started record, invokes nothing and changes nothing, but returns the wrapped instance
  \<open>db\<close>, not the cached result \<open>db.handle\<close>.
\<close>

theorem C3_started_Start_returns_instance:
  "Component_Start HandleComponent (Define ''db'' ''db'' []) Map.empty handle_env0
     = (Inr ''db.handle'',
        \<lparr>key = ''db'', instance_lc = ''db'', dependencies = [], result = Some ''db.handle'', started = True\<rparr>,
        \<lparr>world = (), calls = [StartCall ''db'' Map.empty ''db.handle'' None]\<rparr>)
   \<and> Component_Start HandleComponent
        \<lparr>key = ''db'', instance_lc = ''db'', dependencies = [], result = Some ''db.handle'', started = True\<rparr>
        Map.empty \<lparr>world = (), calls = [StartCall ''db'' Map.empty ''db.handle'' None]\<rparr>
     = (Inr ''db'',
        \<lparr>key = ''db'', instance_lc = ''db'', dependencies = [], result = Some ''db.handle'', started = True\<rparr>,
        \<lparr>world = (), calls = [StartCall ''db'' Map.empty ''db.handle'' None]\<rparr>)"
  by (simp add: Component_Start_def HandleComponent_def handle_env0_def Define_def)

section \<open>Cycle detection is exact\<close>

lemma settled_reach: "(u, v) \<in> (dep_rel cs)\<^sup>* \<Longrightarrow> settled cs B \<Longrightarrow> u \<in> B \<Longrightarrow> v \<in> B"
  by (induction rule: rtrancl_induct) (auto simp: settled_def)

lemma settled_insert:
  assumes "settled cs B" and succ: "\<And>v. (name, v) \<in> dep_rel cs \<Longrightarrow> v \<in> B" and "name \<notin> B"
  shows "settled cs (insert name B)"
proof -
  have "(name, name) \<notin> (dep_rel cs)\<^sup>+"
  proof
    assume "(name, name) \<in> (dep_rel cs)\<^sup>+"
    then obtain z where "(name, z) \<in> dep_rel cs" "(z, name) \<in> (dep_rel cs)\<^sup>*"
      by (meson tranclD)
    with succ settled_reach[OF _ assms(1)] have "name \<in> B" by blast
    with \<open>name \<notin> B\<close> show False by simp
  qed
  with assms show ?thesis by (auto simp: settled_def)
qed

lemma settled_empty: "settled cs {}"
  by (simp add: settled_def)

lemma isCyclic_no_panic:
  "fmlookup cs name \<noteq> None \<Longrightarrow> isCyclic cs name st \<noteq> None"
  "isCyclic_deps cs deps st \<noteq> None"
proof (induction cs name st and cs deps st rule: isCyclic_isCyclic_deps.induct)
  case (1 cs name visited recStack)
  then show ?case by (auto simp: isCyclic.simps split: option.splits bool.splits)
next
  case (2 cs st)
  then show ?case by simp
next
  case (3 cs dep deps visited recStack)
  then show ?case by (auto split: option.splits bool.splits simp del: not_None_eq)
qed

lemma isCyclic_False_frame:
  "isCyclic cs name (visited, recStack) = Some (False, visited', recStack') \<Longrightarrow> recStack' \<subseteq> recStack"
  "isCyclic_deps cs deps (visited, recStack) = Some (False, visited', recStack') \<Longrightarrow> recStack' \<subseteq> recStack"
proof (induction cs name "(visited, recStack)" and cs deps "(visited, recStack)"
    arbitrary: visited recStack visited' recStack' and visited recStack visited' recStack'
    rule: isCyclic_isCyclic_deps.induct)
  case (1 cs name visited recStack)
  then show ?case
    by (fastforce simp: isCyclic.simps split: option.splits bool.splits)
next
  case (2 cs)
  then show ?case by simp
next
  case (3 cs dep deps visited recStack)
  show ?case
  proof (cases "fmlookup cs dep = None")
    case True
    with 3 show ?thesis by simp
  next
    case reg: False
    show ?thesis
    proof (cases "dep \<in> visited")
      case True
      with reg 3 show ?thesis by (auto split: if_splits simp del: not_None_eq)
    next
      case False
      with reg "3.prems" obtain v1 r1 where
        r1: "isCyclic cs dep (visited, recStack) = Some (False, v1, r1)" and
        r2: "isCyclic_deps cs deps (v1, r1) = Some (False, visited', recStack')"
        by (auto split: option.splits bool.splits simp del: not_None_eq)
      from "3.hyps"(2)[OF reg False r1] have "r1 \<subseteq> recStack" .
      moreover from "3.hyps"(3)[OF reg False r1 refl refl r2] have "recStack' \<subseteq> r1" .
      ultimately show ?thesis by simp
    qed
  qed
qed


lemma dep_relI:
  "fmlookup cs n = Some c \<Longrightarrow> d \<in> set (GetDependencies c) \<Longrightarrow> fmlookup cs d \<noteq> None
     \<Longrightarrow> (n, d) \<in> dep_rel cs"
  by (auto simp: dep_rel_def fmlookup_dom'_iff)

lemma dep_relD:
  "(n, d) \<in> dep_rel cs \<Longrightarrow>
     \<exists>c. fmlookup cs n = Some c \<and> d \<in> set (GetDependencies c) \<and> fmlookup cs d \<noteq> None"
  by (auto simp: dep_rel_def fmlookup_dom'_iff)

text \<open>When no cycle is reported: what the traversal leaves behind.\<close>

lemma isCyclic_False_settled:
  "isCyclic cs name (visited, recStack) = Some (False, visited', recStack') \<Longrightarrow>
     name \<notin> visited \<Longrightarrow> recStack \<subseteq> visited \<Longrightarrow> settled cs (visited - recStack) \<Longrightarrow>
     recStack' = recStack \<and> visited \<subseteq> visited' \<and> name \<in> visited'
       \<and> settled cs (visited' - recStack)"
  "isCyclic_deps cs deps (visited, recStack) = Some (False, visited', recStack') \<Longrightarrow>
     recStack \<subseteq> visited \<Longrightarrow> settled cs (visited - recStack) \<Longrightarrow>
     recStack' = recStack \<and> visited \<subseteq> visited' \<and> settled cs (visited' - recStack)
       \<and> (\<forall>d\<in>set deps. fmlookup cs d \<noteq> None \<longrightarrow> d \<in> visited' - recStack)"
proof (induction cs name "(visited, recStack)" and cs deps "(visited, recStack)"
    arbitrary: visited recStack visited' recStack' and visited recStack visited' recStack'
    rule: isCyclic_isCyclic_deps.induct)
  case (1 cs name visited recStack)
  from "1.prems"(1) obtain component v2 r2 where
    c: "fmlookup cs name = Some component" and
    l: "isCyclic_deps cs (GetDependencies component) (insert name visited, insert name recStack)
          = Some (False, v2, r2)" and
    res: "visited' = v2" "recStack' = r2 - {name}"
    by (auto simp: isCyclic.simps split: option.splits bool.splits)
  have nr: "name \<notin> recStack" using "1.prems"(2,3) by blast
  have eq: "insert name visited - insert name recStack = visited - recStack"
    using "1.prems"(2) by blast
  have "insert name recStack \<subseteq> insert name visited" using "1.prems"(3) by blast
  from "1.hyps"[OF c l this] "1.prems"(4) eq
  have r2: "r2 = insert name recStack" and v2: "insert name visited \<subseteq> v2"
    and s2: "settled cs (v2 - insert name recStack)"
    and d2: "\<forall>d\<in>set (GetDependencies component). fmlookup cs d \<noteq> None \<longrightarrow> d \<in> v2 - insert name recStack"
    by simp_all
  have "settled cs (insert name (v2 - insert name recStack))"
  proof (rule settled_insert[OF s2])
    fix v assume "(name, v) \<in> dep_rel cs"
    with c d2 show "v \<in> v2 - insert name recStack"
      by (auto dest!: dep_relD)
  qed simp
  moreover have "insert name (v2 - insert name recStack) = v2 - recStack"
    using v2 nr by blast
  ultimately show ?case using res r2 v2 nr by auto
next
  case (2 cs)
  then show ?case by simp
next
  case (3 cs dep deps visited recStack)
  show ?case
  proof (cases "fmlookup cs dep = None")
    case True
    with "3.prems" have "isCyclic_deps cs deps (visited, recStack) = Some (False, visited', recStack')"
      by simp
    from "3.hyps"(1)[OF True this "3.prems"(2,3)] True show ?thesis by simp
  next
    case reg: False
    show ?thesis
    proof (cases "dep \<in> visited")
      case True
      with reg "3.prems"(1) have nr: "dep \<notin> recStack" and
        l: "isCyclic_deps cs deps (visited, recStack) = Some (False, visited', recStack')"
        by (auto split: if_splits simp del: not_None_eq)
      from "3.hyps"(4)[OF reg _ nr l "3.prems"(2,3)] True nr show ?thesis by auto
    next
      case False
      with reg "3.prems"(1) obtain v1 r1 where
        r1: "isCyclic cs dep (visited, recStack) = Some (False, v1, r1)" and
        r2: "isCyclic_deps cs deps (v1, r1) = Some (False, visited', recStack')"
        by (auto split: option.splits bool.splits simp del: not_None_eq)
      from "3.hyps"(2)[OF reg False r1 False "3.prems"(2,3)]
      have a: "r1 = recStack" "visited \<subseteq> v1" "dep \<in> v1" "settled cs (v1 - recStack)"
        by simp_all
      have "r1 \<subseteq> v1" using a "3.prems"(2) by blast
      from "3.hyps"(3)[OF reg False r1 refl refl r2 this] a
      have b: "recStack' = recStack" "v1 \<subseteq> visited'" "settled cs (visited' - recStack)"
        "\<forall>d\<in>set deps. fmlookup cs d \<noteq> None \<longrightarrow> d \<in> visited' - recStack"
        by simp_all
      have "dep \<notin> recStack" using False "3.prems"(2) by blast
      with a b show ?thesis by auto
    qed
  qed
qed

text \<open>When a cycle is reported, there is one: every name on the recursion stack reaches
  the component being traversed.\<close>

lemma isCyclic_True_cycle:
  "isCyclic cs name (visited, recStack) = Some (True, st') \<Longrightarrow>
     \<forall>u\<in>recStack. (u, name) \<in> (dep_rel cs)\<^sup>* \<Longrightarrow> \<not> acyclic (dep_rel cs)"
  "isCyclic_deps cs deps (visited, recStack) = Some (True, st') \<Longrightarrow>
     fmlookup cs cur = Some c \<Longrightarrow> set deps \<subseteq> set (GetDependencies c) \<Longrightarrow>
     \<forall>u\<in>recStack. (u, cur) \<in> (dep_rel cs)\<^sup>* \<Longrightarrow> \<not> acyclic (dep_rel cs)"
proof (induction cs name "(visited, recStack)" and cs deps "(visited, recStack)"
    arbitrary: visited recStack st' and visited recStack st' cur c
    rule: isCyclic_isCyclic_deps.induct)
  case (1 cs name visited recStack)
  from "1.prems"(1) obtain component where
    c: "fmlookup cs name = Some component" and
    l: "isCyclic_deps cs (GetDependencies component) (insert name visited, insert name recStack)
          = Some (True, st')"
    by (auto simp: isCyclic.simps split: option.splits bool.splits)
  from "1.prems"(2) have "\<forall>u\<in>insert name recStack. (u, name) \<in> (dep_rel cs)\<^sup>*" by simp
  from "1.hyps"[OF c l c _ this] show ?case by simp
next
  case (2 cs)
  then show ?case by simp
next
  case (3 cs dep deps visited recStack)
  from "3.prems"(3) have sub: "set deps \<subseteq> set (GetDependencies c)" and
    din: "dep \<in> set (GetDependencies c)" by simp_all
  show ?case
  proof (cases "fmlookup cs dep = None")
    case True
    with "3.prems" have "isCyclic_deps cs deps (visited, recStack) = Some (True, st')"
      by simp
    from "3.hyps"(1)[OF True this "3.prems"(2) sub "3.prems"(4)] show ?thesis .
  next
    case reg: False
    from dep_relI[OF "3.prems"(2) din reg] have edge: "(cur, dep) \<in> dep_rel cs" .
    show ?thesis
    proof (cases "dep \<in> visited")
      case True
      show ?thesis
      proof (cases "dep \<in> recStack")
        case True
        with "3.prems"(4) have "(dep, cur) \<in> (dep_rel cs)\<^sup>*" by simp
        with edge have "(dep, dep) \<in> (dep_rel cs)\<^sup>+" by simp
        then show ?thesis by (auto simp: acyclic_def)
      next
        case False
        with reg True "3.prems"(1)
        have l: "isCyclic_deps cs deps (visited, recStack) = Some (True, st')"
          by (auto split: if_splits simp del: not_None_eq)
        from "3.hyps"(4)[OF reg _ False l "3.prems"(2) sub "3.prems"(4)] True
        show ?thesis by simp
      qed
    next
      case False
      from "3.prems"(4) edge have reach: "\<forall>u\<in>recStack. (u, dep) \<in> (dep_rel cs)\<^sup>*"
        by (meson rtrancl.rtrancl_into_rtrancl)
      from reg False "3.prems"(1) obtain b1 st1 where
        r1: "isCyclic cs dep (visited, recStack) = Some (b1, st1)"
        by (auto split: option.splits simp del: not_None_eq)
      show ?thesis
      proof (cases b1)
        case True
        with r1 have "isCyclic cs dep (visited, recStack) = Some (True, st1)" by simp
        from "3.hyps"(2)[OF reg False this reach] show ?thesis .
      next
        case b1: False
        obtain v1 rs1 where st1: "st1 = (v1, rs1)" by (cases st1)
        with r1 b1 have r1': "isCyclic cs dep (visited, recStack) = Some (False, v1, rs1)"
          by simp
        from reg False r1' "3.prems"(1)
        have r2: "isCyclic_deps cs deps (v1, rs1) = Some (True, st')"
          by (auto simp del: not_None_eq)
        from isCyclic_False_frame(1)[OF r1'] have "rs1 \<subseteq> recStack" .
        with "3.prems"(4) have "\<forall>u\<in>rs1. (u, cur) \<in> (dep_rel cs)\<^sup>*" by blast
        from "3.hyps"(3)[OF reg False r1' refl refl r2 "3.prems"(2) sub this]
        show ?thesis .
      qed
    qed
  qed
qed


lemma check_loop_None_settled:
  "check_loop cs ks (visited, {}) = None \<Longrightarrow> settled cs visited \<Longrightarrow>
     \<exists>visited'. settled cs visited' \<and> visited \<union> set ks \<subseteq> visited'"
proof (induction ks arbitrary: visited)
  case Nil
  then show ?case by auto
next
  case (Cons name names)
  show ?case
  proof (cases "name \<in> visited")
    case True
    with Cons.prems have "check_loop cs names (visited, {}) = None" by simp
    from Cons.IH[OF this Cons.prems(2)] True show ?thesis by auto
  next
    case False
    with Cons.prems(1) obtain v1 r1 where
      r1: "isCyclic cs name (visited, {}) = Some (False, v1, r1)" and
      l: "check_loop cs names (v1, r1) = None"
      by (auto split: option.splits bool.splits)
    from isCyclic_False_settled(1)[OF r1 False] Cons.prems(2)
    have a: "r1 = {}" "visited \<subseteq> v1" "name \<in> v1" "settled cs v1" by simp_all
    from Cons.IH[OF l[unfolded a(1)] a(4)] a show ?thesis by auto
  qed
qed

lemma check_loop_Some_cycle:
  "check_loop cs ks (visited, {}) = Some err \<Longrightarrow> \<forall>k\<in>set ks. fmlookup cs k \<noteq> None \<Longrightarrow>
     \<not> acyclic (dep_rel cs)
     \<and> (\<exists>name\<in>set ks. err = ErrorString (''cyclic dependency detected involving component '' @ name))"
proof (induction ks arbitrary: visited)
  case Nil
  then show ?case by simp
next
  case (Cons name names)
  show ?case
  proof (cases "name \<in> visited")
    case True
    with Cons.prems have "check_loop cs names (visited, {}) = Some err" by simp
    from Cons.IH[OF this] Cons.prems(2) show ?thesis by auto
  next
    case False
    from Cons.prems(2) have "fmlookup cs name \<noteq> None" by simp
    from isCyclic_no_panic(1)[OF this, of "(visited, {})"] obtain b1 v1 r1 where
      r1: "isCyclic cs name (visited, {}) = Some (b1, v1, r1)"
      by (cases "isCyclic cs name (visited, {})") auto
    show ?thesis
    proof (cases b1)
      case True
      with r1 have "isCyclic cs name (visited, {}) = Some (True, v1, r1)" by simp
      from isCyclic_True_cycle(1)[OF this] have "\<not> acyclic (dep_rel cs)" by simp
      moreover from r1 True False Cons.prems(1)
      have "err = ErrorString (''cyclic dependency detected involving component '' @ name)"
        by simp
      ultimately show ?thesis by simp
    next
      case b1: False
      with r1 have r1': "isCyclic cs name (visited, {}) = Some (False, v1, r1)" by simp
      from isCyclic_False_frame(1)[OF r1'] have "r1 = {}" by simp
      with r1' False Cons.prems(1) have "check_loop cs names (v1, {}) = Some err" by simp
      from Cons.IH[OF this] Cons.prems(2) show ?thesis by auto
    qed
  qed
qed

lemma checkCyclicDependencies_None_acyclic:
  assumes "range_of cs ks" and "checkCyclicDependencies cs ks = None"
  shows "acyclic (dep_rel cs)"
proof -
  from check_loop_None_settled[OF assms(2)[unfolded checkCyclicDependencies_def] settled_empty]
  obtain B where B: "settled cs B" "set ks \<subseteq> B" by auto
  have "(x, x) \<notin> (dep_rel cs)\<^sup>+" for x
  proof
    assume c: "(x, x) \<in> (dep_rel cs)\<^sup>+"
    then obtain z where "(x, z) \<in> dep_rel cs" by (meson tranclD)
    then have "x \<in> fmdom' cs" by (auto dest!: dep_relD intro: fmdom'I)
    with assms(1) B(2) have "x \<in> B" by (auto simp: range_of_def)
    with B(1) c show False by (simp add: settled_def)
  qed
  then show ?thesis by (simp add: acyclic_def)
qed

lemma checkCyclicDependencies_Some_cycle:
  assumes "range_of cs ks" and "checkCyclicDependencies cs ks = Some err"
  shows "\<not> acyclic (dep_rel cs)"
    and "\<exists>name\<in>fmdom' cs. err = ErrorString (''cyclic dependency detected involving component '' @ name)"
proof -
  from assms(1) have "\<forall>k\<in>set ks. fmlookup cs k \<noteq> None"
    by (auto simp: range_of_def fmlookup_dom'_iff)
  from check_loop_Some_cycle[OF assms(2)[unfolded checkCyclicDependencies_def] this] assms(1)
  show "\<not> acyclic (dep_rel cs)"
    and "\<exists>name\<in>fmdom' cs. err = ErrorString (''cyclic dependency detected involving component '' @ name)"
    by (auto simp: range_of_def)
qed

lemma checkCyclicDependencies_acyclic_iff:
  "range_of cs ks \<Longrightarrow> checkCyclicDependencies cs ks = None \<longleftrightarrow> acyclic (dep_rel cs)"
  using checkCyclicDependencies_None_acyclic checkCyclicDependencies_Some_cycle(1)
  by (cases "checkCyclicDependencies cs ks") blast+

section \<open>The computed order\<close>

lemma init_graph_lookup:
  "fmlookup (fst (init_graph ks (g, d))) k = (if k \<in> set ks then Some [] else fmlookup g k)"
  "fmlookup (snd (init_graph ks (g, d))) k = (if k \<in> set ks then Some 0 else fmlookup d k)"
  by (induction ks arbitrary: g d) auto

lemma graph_get_fmupd:
  "graph_get (fmupd k v g) k' = (if k = k' then v else graph_get g k')"
  by (simp add: graph_get_def)

lemma add_edges_Inr:
  "add_edges cs name deps (g, d) = Inr (g', d') \<Longrightarrow>
     (\<forall>x\<in>set deps. fmlookup cs x \<noteq> None)
     \<and> (\<forall>x y. count_list (graph_get g' x) y
            = count_list (graph_get g x) y + (if y = name then count_list deps x else 0))
     \<and> (\<forall>y. fmlookup d' y
            = (if y = name \<and> deps \<noteq> [] then Some (inDegree_get d y + int (length deps))
               else fmlookup d y))"
proof (induction deps arbitrary: g d)
  case Nil
  then show ?case by simp
next
  case (Cons dep deps)
  let ?g1 = "fmupd dep (graph_get g dep @ [name]) g"
  let ?d1 = "fmupd name (inDegree_get d name + 1) d"
  from Cons.prems have reg: "fmlookup cs dep \<noteq> None"
    and r: "add_edges cs name deps (?g1, ?d1) = Inr (g', d')"
    by (auto split: if_splits)
  from Cons.IH[OF r] have
    a: "\<forall>x\<in>set deps. fmlookup cs x \<noteq> None" and
    b: "\<And>x y. count_list (graph_get g' x) y
            = count_list (graph_get ?g1 x) y + (if y = name then count_list deps x else 0)" and
    c: "\<And>y. fmlookup d' y
            = (if y = name \<and> deps \<noteq> [] then Some (inDegree_get ?d1 y + int (length deps))
               else fmlookup ?d1 y)"
    by simp_all
  have "count_list (graph_get g' x) y
          = count_list (graph_get g x) y + (if y = name then count_list (dep # deps) x else 0)" for x y
    by (simp add: b graph_get_fmupd)
  moreover have "fmlookup d' y
            = (if y = name \<and> dep # deps \<noteq> [] then Some (inDegree_get d y + int (length (dep # deps)))
               else fmlookup d y)" for y
    by (simp add: c inDegree_get_fmupd)
  ultimately show ?case using reg a by simp
qed

lemma add_edges_Inl:
  "add_edges cs name deps gd = Inl err \<Longrightarrow>
     \<exists>dep\<in>set deps. fmlookup cs dep = None
        \<and> err = ErrorString (''dependency '' @ dep @ '' not found for component '' @ name)"
proof (induction deps arbitrary: gd)
  case Nil
  then show ?case by simp
next
  case (Cons dep deps)
  then show ?case by (cases gd) (auto split: if_splits)
qed

lemma add_edges_registered:
  "\<forall>x\<in>set deps. fmlookup cs x \<noteq> None \<Longrightarrow> \<exists>gd'. add_edges cs name deps gd = Inr gd'"
proof (induction deps arbitrary: gd)
  case Nil
  then show ?case by simp
next
  case (Cons dep deps)
  then show ?case by (cases gd) (auto simp del: not_None_eq)
qed

lemma deps_of_Some: "fmlookup cs n = Some c \<Longrightarrow> deps_of cs n = GetDependencies c"
  by (simp add: deps_of_def)

lemma deps_of_None: "fmlookup cs n = None \<Longrightarrow> deps_of cs n = []"
  by (simp add: deps_of_def)

lemma build_graph_Inr:
  "build_graph cs ks (g, d) = Inr (g', d') \<Longrightarrow> distinct ks \<Longrightarrow>
     (\<forall>n\<in>set ks. \<forall>x\<in>set (deps_of cs n). fmlookup cs x \<noteq> None)
     \<and> (\<forall>x y. count_list (graph_get g' x) y
            = count_list (graph_get g x) y + (if y \<in> set ks then count_list (deps_of cs y) x else 0))
     \<and> (\<forall>y. fmlookup d' y
            = (if y \<in> set ks \<and> deps_of cs y \<noteq> []
               then Some (inDegree_get d y + int (length (deps_of cs y)))
               else fmlookup d y))"
proof (induction ks arbitrary: g d)
  case Nil
  then show ?case by simp
next
  case (Cons name names)
  from Cons.prems(2) have dn: "distinct names" and nn: "name \<notin> set names" by simp_all
  show ?case
  proof (cases "fmlookup cs name")
    case None
    with Cons.prems(1) have "build_graph cs names (g, d) = Inr (g', d')" by simp
    from Cons.IH[OF this dn] deps_of_None[OF None] show ?thesis by auto
  next
    case (Some c)
    with Cons.prems(1) obtain g1 d1 where
      e: "add_edges cs name (GetDependencies c) (g, d) = Inr (g1, d1)" and
      r: "build_graph cs names (g1, d1) = Inr (g', d')"
      by (auto split: sum.splits)
    note dc = deps_of_Some[OF Some]
    from add_edges_Inr[OF e] dc have
      a1: "\<forall>x\<in>set (deps_of cs name). fmlookup cs x \<noteq> None" and
      b1: "\<And>x y. count_list (graph_get g1 x) y
            = count_list (graph_get g x) y + (if y = name then count_list (deps_of cs name) x else 0)" and
      c1: "\<And>y. fmlookup d1 y
            = (if y = name \<and> deps_of cs name \<noteq> []
               then Some (inDegree_get d y + int (length (deps_of cs name)))
               else fmlookup d y)"
      by simp_all
    from Cons.IH[OF r dn] have
      a2: "\<forall>n\<in>set names. \<forall>x\<in>set (deps_of cs n). fmlookup cs x \<noteq> None" and
      b2: "\<And>x y. count_list (graph_get g' x) y
            = count_list (graph_get g1 x) y + (if y \<in> set names then count_list (deps_of cs y) x else 0)" and
      c2: "\<And>y. fmlookup d' y
            = (if y \<in> set names \<and> deps_of cs y \<noteq> []
               then Some (inDegree_get d1 y + int (length (deps_of cs y)))
               else fmlookup d1 y)"
      by simp_all
    have "count_list (graph_get g' x) y
            = count_list (graph_get g x) y
                + (if y \<in> set (name # names) then count_list (deps_of cs y) x else 0)" for x y
      using nn by (auto simp: b1 b2)
    moreover have "fmlookup d' y
            = (if y \<in> set (name # names) \<and> deps_of cs y \<noteq> []
               then Some (inDegree_get d y + int (length (deps_of cs y)))
               else fmlookup d y)" for y
      using nn by (auto simp: c1 c2 inDegree_get_def)
    ultimately show ?thesis using a1 a2 by simp
  qed
qed

lemma build_graph_Inl:
  "build_graph cs ks gd = Inl err \<Longrightarrow>
     \<exists>n\<in>set ks. \<exists>dep\<in>set (deps_of cs n). fmlookup cs n \<noteq> None \<and> fmlookup cs dep = None
        \<and> err = ErrorString (''dependency '' @ dep @ '' not found for component '' @ n)"
proof (induction ks arbitrary: gd)
  case Nil
  then show ?case by simp
next
  case (Cons name names)
  show ?case
  proof (cases "fmlookup cs name")
    case None
    with Cons show ?thesis by auto
  next
    case (Some c)
    show ?thesis
    proof (cases "add_edges cs name (GetDependencies c) gd")
      case (Inl e)
      with Some Cons.prems have "e = err" by simp
      with add_edges_Inl[OF Inl] Some show ?thesis by (auto simp: deps_of_Some)
    next
      case (Inr gd')
      with Some Cons.prems have "build_graph cs names gd' = Inl err" by simp
      from Cons.IH[OF this] show ?thesis by auto
    qed
  qed
qed

lemma build_graph_registered:
  "\<forall>n\<in>set ks. \<forall>x\<in>set (deps_of cs n). fmlookup cs x \<noteq> None \<Longrightarrow>
     \<exists>gd'. build_graph cs ks gd = Inr gd'"
proof (induction ks arbitrary: gd)
  case Nil
  then show ?case by simp
next
  case (Cons name names)
  show ?case
  proof (cases "fmlookup cs name")
    case None
    with Cons show ?thesis by simp
  next
    case (Some c)
    with Cons.prems have "\<forall>x\<in>set (GetDependencies c). fmlookup cs x \<noteq> None"
      by (simp add: deps_of_Some)
    from add_edges_registered[OF this] obtain gd' where
      "add_edges cs name (GetDependencies c) gd = Inr gd'" by blast
    with Some Cons show ?thesis by simp
  qed
qed

lemma build_graph_graph_of:
  assumes "range_of cs ks1" "range_of cs ks2"
    and "build_graph cs ks2 (init_graph ks1 (fmempty, fmempty)) = Inr (g, d)"
  shows "graph_of cs g d" and "deps_registered cs"
proof -
  obtain g0 d0 where i: "init_graph ks1 (fmempty, fmempty) = (g0, d0)"
    by (cases "init_graph ks1 (fmempty, fmempty)")
  from init_graph_lookup[of ks1 fmempty fmempty] i assms(1)
  have g0: "\<And>k. graph_get g0 k = []"
    and d0: "\<And>k. fmlookup d0 k = (if k \<in> fmdom' cs then Some 0 else None)"
    by (auto simp: graph_get_def range_of_def)
  from assms(2) have dk: "distinct ks2" and sk: "set ks2 = fmdom' cs"
    by (simp_all add: range_of_def)
  from build_graph_Inr[OF assms(3)[unfolded i] dk] sk have
    a: "\<forall>n\<in>fmdom' cs. \<forall>x\<in>set (deps_of cs n). fmlookup cs x \<noteq> None" and
    b: "\<And>x y. count_list (graph_get g x) y
            = count_list (graph_get g0 x) y + (if y \<in> fmdom' cs then count_list (deps_of cs y) x else 0)" and
    c: "\<And>y. fmlookup d y
            = (if y \<in> fmdom' cs \<and> deps_of cs y \<noteq> []
               then Some (inDegree_get d0 y + int (length (deps_of cs y)))
               else fmlookup d0 y)"
    by simp_all
  have nd: "deps_of cs y = []" if "y \<notin> fmdom' cs" for y
    using that by (simp add: deps_of_None fmdom'_notD)
  have "count_list (graph_get g x) y = count_list (deps_of cs y) x" for x y
    using nd[of y] by (simp add: b g0)
  moreover have "fmlookup d y = (if y \<in> fmdom' cs then Some (int (length (deps_of cs y))) else None)" for y
    by (simp add: c d0 inDegree_get_def)
  ultimately show "graph_of cs g d" by (simp add: graph_of_def)
  from a show "deps_registered cs"
    by (auto simp: deps_registered_def fmlookup_dom'_iff)
qed

lemma reduce_neighbors_result:
  assumes "reduce_neighbors ns (d, q) = (d', q')"
    and "\<forall>n\<in>set ns. int (count_list ns n) \<le> inDegree_get d n"
    and "distinct q" and "set q \<inter> set ns = {}"
  shows "(\<forall>n. fmlookup d' n
            = (if n \<in> set ns then Some (inDegree_get d n - int (count_list ns n)) else fmlookup d n))
     \<and> set q' = set q \<union> {n \<in> set ns. inDegree_get d n = int (count_list ns n)}
     \<and> distinct q'"
  using assms
proof (induction ns arbitrary: d q)
  case Nil
  then show ?case by simp
next
  case (Cons n ns)
  let ?v = "inDegree_get d n - 1"
  let ?d1 = "fmupd n ?v d"
  let ?q1 = "if ?v = 0 then q @ [n] else q"
  from Cons.prems(1) have r: "reduce_neighbors ns (?d1, ?q1) = (d', q')"
    by (simp add: Let_def inDegree_get_fmupd)
  from Cons.prems(2) have cn: "int (count_list ns n) + 1 \<le> inDegree_get d n" by simp
  have p1: "\<forall>m\<in>set ns. int (count_list ns m) \<le> inDegree_get ?d1 m"
  proof
    fix m assume "m \<in> set ns"
    with Cons.prems(2) have "int (count_list (n # ns) m) \<le> inDegree_get d m" by simp
    then show "int (count_list ns m) \<le> inDegree_get ?d1 m"
      by (cases "m = n") (simp_all add: inDegree_get_fmupd)
  qed
  have nns: "n \<notin> set ns" if "?v = 0"
  proof
    assume "n \<in> set ns"
    then have "count_list ns n \<noteq> 0" by (simp add: count_list_0_iff)
    then have "0 < count_list ns n" by simp
    with cn that show False by simp
  qed
  from Cons.prems(3,4) have p2: "distinct ?q1" by auto
  from Cons.prems(4) nns have p3: "set ?q1 \<inter> set ns = {}" by auto
  from Cons.IH[OF r p1 p2 p3] have
    a: "\<And>m. fmlookup d' m
          = (if m \<in> set ns then Some (inDegree_get ?d1 m - int (count_list ns m)) else fmlookup ?d1 m)"
    and b: "set q' = set ?q1 \<union> {m \<in> set ns. inDegree_get ?d1 m = int (count_list ns m)}"
    and c: "distinct q'"
    by simp_all
  have a': "fmlookup d' m
      = (if m \<in> set (n # ns) then Some (inDegree_get d m - int (count_list (n # ns) m))
         else fmlookup d m)" for m
    by (cases "m = n") (auto simp: a inDegree_get_fmupd count_list_0_iff)
  have b': "set q' = set q \<union> {m \<in> set (n # ns). inDegree_get d m = int (count_list (n # ns) m)}"
  proof (rule set_eqI)
    fix m
    show "m \<in> set q' \<longleftrightarrow>
        m \<in> set q \<union> {m \<in> set (n # ns). inDegree_get d m = int (count_list (n # ns) m)}"
    proof (cases "m = n")
      case neq: False
      then have "inDegree_get ?d1 m = inDegree_get d m" "count_list (n # ns) m = count_list ns m"
        by (simp_all add: inDegree_get_fmupd)
      with neq show ?thesis unfolding b by auto
    next
      case eq: True
      show ?thesis
      proof (cases "?v = 0")
        case True
        from nns[OF True] have "count_list ns n = 0" by (simp add: count_list_0_iff)
        with True eq show ?thesis unfolding b by simp
      next
        case False
        have d1n: "inDegree_get ?d1 n = ?v" by (simp add: inDegree_get_fmupd)
        have "n \<in> set ns" if "?v = int (count_list ns n)"
        proof (rule ccontr)
          assume "n \<notin> set ns"
          then have "count_list ns n = 0" by (simp add: count_list_0_iff)
          with that False show False by simp
        qed
        then have "(n \<in> set ns \<and> ?v = int (count_list ns n))
            \<longleftrightarrow> inDegree_get d n = int (count_list (n # ns) n)"
        proof (cases "n \<in> set ns")
          case True
          have "?v = int (count_list ns n) \<longleftrightarrow> inDegree_get d n = 1 + int (count_list ns n)"
            by linarith
          with True show ?thesis by simp
        next
          case nin: False
          then have c0: "count_list ns n = 0" by (simp add: count_list_0_iff)
          with False have "inDegree_get d n \<noteq> 1" by simp
          with nin c0 show ?thesis by simp
        qed
        moreover from False
        have "n \<in> set q' \<longleftrightarrow> n \<in> set q \<or> (n \<in> set ns \<and> ?v = int (count_list ns n))"
          by (simp add: b d1n)
        ultimately show ?thesis using eq by simp
      qed
    qed
  qed
  show ?case by (intro conjI allI a' b' c)
qed

lemma filter_insert_count:
  "c \<notin> E \<Longrightarrow> int (length (filter (\<lambda>x. x \<notin> insert c E) xs))
      = int (length (filter (\<lambda>x. x \<notin> E) xs)) - int (count_list xs c)"
  by (induction xs) auto

lemma sort_hd_tl:
  assumes "queue \<noteq> []" "distinct queue"
  shows "hd (sort queue) \<in> set queue" and "\<forall>x\<in>set queue. hd (sort queue) \<le> x"
    and "set (tl (sort queue)) = set queue - {hd (sort queue)}" and "distinct (tl (sort queue))"
proof -
  from assms(1) obtain c rest where s: "sort queue = c # rest"
    by (cases "sort queue") (auto dest: arg_cong[where f=length])
  have "sorted (sort queue)" "set (sort queue) = set queue" "distinct (sort queue)"
    using assms(2) by simp_all
  with s have "sorted (c # rest)" "set queue = insert c (set rest)" "distinct (c # rest)"
    by simp_all
  with s show "hd (sort queue) \<in> set queue" and "\<forall>x\<in>set queue. hd (sort queue) \<le> x"
    and "set (tl (sort queue)) = set queue - {hd (sort queue)}" and "distinct (tl (sort queue))"
    by auto
qed

lemma least_ready_sequence_snoc:
  assumes "least_ready_sequence cs xs" "c \<in> ready cs (set xs)" "\<forall>n\<in>ready cs (set xs). c \<le> n"
  shows "least_ready_sequence cs (xs @ [c])"
  unfolding least_ready_sequence_def
proof (intro allI impI)
  fix i assume "i < length (xs @ [c])"
  then consider "i < length xs" | "i = length xs" by fastforce
  then show "(xs @ [c]) ! i \<in> ready cs (set (take i (xs @ [c])))
      \<and> (\<forall>n\<in>ready cs (set (take i (xs @ [c]))). (xs @ [c]) ! i \<le> n)"
  proof cases
    case 1
    with assms(1) show ?thesis by (simp add: least_ready_sequence_def nth_append)
  next
    case 2
    with assms(2,3) show ?thesis by simp
  qed
qed

lemma least_ready_sequence_props:
  assumes "least_ready_sequence cs xs"
  shows "distinct xs" and "set xs \<subseteq> fmdom' cs"
    and "\<forall>i<length xs. set (deps_of cs (xs ! i)) \<subseteq> set (take i xs)"
proof -
  from assms have r: "\<And>i. i < length xs \<Longrightarrow> xs ! i \<in> ready cs (set (take i xs))"
    by (simp add: least_ready_sequence_def)
  have "xs ! i \<noteq> xs ! j" if "i < j" "j < length xs" for i j
  proof -
    from r[OF that(2)] have "xs ! j \<notin> set (take j xs)" by (simp add: ready_def)
    moreover from that have "xs ! i \<in> set (take j xs)"
      by (metis in_set_conv_nth length_take min.absorb2 nth_take order_less_imp_le)
    ultimately show ?thesis by auto
  qed
  then show "distinct xs"
    by (metis distinct_conv_nth nat_neq_iff)
  from r show "set xs \<subseteq> fmdom' cs"
    by (auto simp: ready_def in_set_conv_nth)
  from r show "\<forall>i<length xs. set (deps_of cs (xs ! i)) \<subseteq> set (take i xs)"
    by (simp add: ready_def)
qed

lemma least_ready_sequence_deps_emitted:
  assumes "least_ready_sequence cs xs" "n \<in> set xs"
  shows "set (deps_of cs n) \<subseteq> set xs"
proof -
  from assms(2) obtain i where "i < length xs" "xs ! i = n" by (auto simp: in_set_conv_nth)
  with least_ready_sequence_props(3)[OF assms(1)]
  have "set (deps_of cs n) \<subseteq> set (take i xs)" by auto
  then show ?thesis by (meson set_take_subset subset_trans)
qed

lemma ready_dom: "n \<in> ready cs E \<Longrightarrow> n \<in> fmdom' cs \<and> n \<notin> E \<and> set (deps_of cs n) \<subseteq> E"
  by (simp add: ready_def)

lemma count_list_pos_iff: "0 < count_list xs x \<longleftrightarrow> x \<in> set xs"
  using count_list_0_iff[of xs x] by auto

lemma count_le_filter:
  "c \<notin> E \<Longrightarrow> int (count_list xs c) \<le> int (length (filter (\<lambda>x. x \<notin> E) xs))"
  by (induction xs) auto

lemma deps_of_dom: "x \<in> set (deps_of cs n) \<Longrightarrow> n \<in> fmdom' cs"
  by (cases "fmlookup cs n") (auto simp: deps_of_def intro: fmdom'I)

lemma kahn_step:
  assumes inv: "kahn_inv cs graph queue res d" and ne: "queue \<noteq> []"
    and red: "reduce_neighbors (graph_get graph (hd (sort queue))) (d, tl (sort queue)) = (d', q')"
  shows "kahn_inv cs graph q' (res @ [hd (sort queue)]) d'"
proof -
  let ?c = "hd (sort queue)"
  let ?rest = "tl (sort queue)"
  let ?ns = "graph_get graph ?c"
  from inv have lrs: "least_ready_sequence cs res" and dq: "distinct queue"
    and sq: "set queue = ready cs (set res)"
    and gr: "\<And>x y. count_list (graph_get graph x) y = count_list (deps_of cs y) x"
    and deg: "\<And>n. n \<in> fmdom' cs \<Longrightarrow>
        fmlookup d n = Some (int (length (filter (\<lambda>x. x \<notin> set res) (deps_of cs n))))"
    by (simp_all add: kahn_inv_def)
  note s = sort_hd_tl[OF ne dq]
  from s(1) sq have cr: "?c \<in> ready cs (set res)" by simp
  then have cdom: "?c \<in> fmdom' cs" and cres: "?c \<notin> set res"
    and cdeps: "set (deps_of cs ?c) \<subseteq> set res"
    by (simp_all add: ready_def)
  from s(2) sq have cmin: "\<forall>n\<in>ready cs (set res). ?c \<le> n" by simp
  have lrs': "least_ready_sequence cs (res @ [?c])"
    by (rule least_ready_sequence_snoc[OF lrs cr cmin])
  have ns_iff: "n \<in> set ?ns \<longleftrightarrow> ?c \<in> set (deps_of cs n)" for n
    using gr[of ?c n] count_list_pos_iff[of ?ns n] count_list_pos_iff[of "deps_of cs n" ?c]
    by simp
  have ns_dom: "n \<in> fmdom' cs" if "n \<in> set ?ns" for n
    using that ns_iff deps_of_dom by blast
  have dget: "inDegree_get d n = int (length (filter (\<lambda>x. x \<notin> set res) (deps_of cs n)))"
    if "n \<in> fmdom' cs" for n
    using deg[OF that] by (simp add: inDegree_get_def)
  have p1: "\<forall>n\<in>set ?ns. int (count_list ?ns n) \<le> inDegree_get d n"
  proof
    fix n assume "n \<in> set ?ns"
    from dget[OF ns_dom[OF this]] count_le_filter[OF cres, of "deps_of cs n"] gr[of ?c n]
    show "int (count_list ?ns n) \<le> inDegree_get d n" by simp
  qed
  have p3: "set ?rest \<inter> set ?ns = {}"
  proof -
    have False if "n \<in> set ?rest" "n \<in> set ?ns" for n
    proof -
      from that(1) s(3) sq have "set (deps_of cs n) \<subseteq> set res" by (auto simp: ready_def)
      moreover from that(2) ns_iff have "?c \<in> set (deps_of cs n)" by simp
      ultimately show False using cres by blast
    qed
    then show ?thesis by blast
  qed
  from reduce_neighbors_result[OF red p1 s(4) p3] have
    d': "\<And>n. fmlookup d' n
          = (if n \<in> set ?ns then Some (inDegree_get d n - int (count_list ?ns n)) else fmlookup d n)"
    and q': "set q' = set ?rest \<union> {n \<in> set ?ns. inDegree_get d n = int (count_list ?ns n)}"
    and dq': "distinct q'"
    by simp_all
  have rem: "int (length (filter (\<lambda>x. x \<notin> set (res @ [?c])) (deps_of cs n)))
      = int (length (filter (\<lambda>x. x \<notin> set res) (deps_of cs n))) - int (count_list (deps_of cs n) ?c)"
    for n
    using filter_insert_count[OF cres, of "deps_of cs n"] by simp
  have deg': "fmlookup d' n = Some (int (length (filter (\<lambda>x. x \<notin> set (res @ [?c])) (deps_of cs n))))"
    if "n \<in> fmdom' cs" for n
  proof (cases "n \<in> set ?ns")
    case True
    with d'[of n] dget[OF that] gr[of ?c n] rem[of n] show ?thesis by simp
  next
    case False
    then have "count_list (deps_of cs n) ?c = 0"
      using ns_iff[of n] by (simp add: count_list_0_iff)
    with False d'[of n] deg[OF that] rem[of n] show ?thesis by simp
  qed
  have full: "inDegree_get d n = int (count_list ?ns n) \<longleftrightarrow> set (deps_of cs n) \<subseteq> insert ?c (set res)"
    if "n \<in> fmdom' cs" for n
  proof -
    have "inDegree_get d n = int (count_list ?ns n)
        \<longleftrightarrow> length (filter (\<lambda>x. x \<notin> set (res @ [?c])) (deps_of cs n)) = 0"
      using dget[OF that] gr[of ?c n] rem[of n] by linarith
    also have "\<dots> \<longleftrightarrow> set (deps_of cs n) \<subseteq> insert ?c (set res)"
      by (auto simp: filter_empty_conv)
    finally show ?thesis .
  qed
  have sq': "set q' = ready cs (set (res @ [?c]))"
  proof (rule set_eqI)
    fix n
    show "n \<in> set q' \<longleftrightarrow> n \<in> ready cs (set (res @ [?c]))"
    proof
      assume "n \<in> set q'"
      with q' consider "n \<in> set ?rest" | "n \<in> set ?ns" "inDegree_get d n = int (count_list ?ns n)"
        by blast
      then show "n \<in> ready cs (set (res @ [?c]))"
      proof cases
        case 1
        with s(3) sq show ?thesis by (auto simp: ready_def)
      next
        case 2
        from ns_dom[OF 2(1)] have nd: "n \<in> fmdom' cs" .
        from 2(1) ns_iff have cin: "?c \<in> set (deps_of cs n)" by simp
        from full[OF nd] 2(2) have sub: "set (deps_of cs n) \<subseteq> insert ?c (set res)" by simp
        have "n \<notin> set res"
        proof
          assume "n \<in> set res"
          from least_ready_sequence_deps_emitted[OF lrs this] cin cres show False by blast
        qed
        moreover have "n \<noteq> ?c" using cin cdeps cres by blast
        ultimately show ?thesis using nd sub by (simp add: ready_def)
      qed
    next
      assume r: "n \<in> ready cs (set (res @ [?c]))"
      then have nd: "n \<in> fmdom' cs" and nr: "n \<notin> set res" and nc: "n \<noteq> ?c"
        and sub: "set (deps_of cs n) \<subseteq> insert ?c (set res)"
        by (auto simp: ready_def)
      show "n \<in> set q'"
      proof (cases "?c \<in> set (deps_of cs n)")
        case True
        with ns_iff have "n \<in> set ?ns" by simp
        moreover from full[OF nd] sub have "inDegree_get d n = int (count_list ?ns n)" by simp
        ultimately show ?thesis using q' by blast
      next
        case False
        with sub have "set (deps_of cs n) \<subseteq> set res" by blast
        with nd nr sq have "n \<in> set queue" by (simp add: ready_def)
        with nc s(3) q' show ?thesis by blast
      qed
    qed
  qed
  from lrs' dq' sq' gr deg' show ?thesis by (simp add: kahn_inv_def)
qed

lemma topo_sort_correct:
  "kahn_inv cs graph queue res d \<Longrightarrow>
     least_ready_sequence cs (topo_sort graph queue res d)
     \<and> ready cs (set (topo_sort graph queue res d)) = {}"
proof (induction graph queue res d rule: topo_sort.induct)
  case (1 graph queue res inDegree)
  show ?case
  proof (cases "queue = []")
    case True
    with "1.prems" show ?thesis
      by (simp add: topo_sort.simps kahn_inv_def)
  next
    case False
    obtain d' q' where
      red: "reduce_neighbors (graph_get graph (hd (sort queue))) (inDegree, tl (sort queue)) = (d', q')"
      by (cases "reduce_neighbors (graph_get graph (hd (sort queue))) (inDegree, tl (sort queue))")
    from kahn_step[OF "1.prems" False red]
    have "kahn_inv cs graph q' (res @ [hd (sort queue)]) d'" .
    from "1.IH"[OF False refl refl red[symmetric] this]
    have "least_ready_sequence cs (topo_sort graph q' (res @ [hd (sort queue)]) d')
       \<and> ready cs (set (topo_sort graph q' (res @ [hd (sort queue)]) d')) = {}" .
    moreover have "topo_sort graph queue res inDegree = topo_sort graph q' (res @ [hd (sort queue)]) d'"
      using False red by (subst topo_sort.simps) (simp add: Let_def)
    ultimately show ?thesis by simp
  qed
qed

lemma kahn_inv_initial:
  assumes "graph_of cs g d" "range_of cs ks"
  shows "kahn_inv cs g (sources ks d) [] d"
proof -
  from assms(1) have
    gr: "\<And>x y. count_list (graph_get g x) y = count_list (deps_of cs y) x" and
    deg: "\<And>y. fmlookup d y = (if y \<in> fmdom' cs then Some (int (length (deps_of cs y))) else None)"
    by (simp_all add: graph_of_def)
  from assms(2) have "distinct (sources ks d)" by (simp add: sources_def range_of_def)
  moreover have "set (sources ks d) = ready cs (set [])"
    using assms(2) by (auto simp: sources_def range_of_def ready_def deg)
  moreover have "least_ready_sequence cs []" by (simp add: least_ready_sequence_def)
  ultimately show ?thesis using gr deg by (simp add: kahn_inv_def)
qed

lemma finite_dep_rel: "finite (dep_rel cs)"
proof -
  have "dep_rel cs \<subseteq> fmdom' cs \<times> fmdom' cs"
    by (auto simp: dep_rel_def intro: fmdom'I)
  then show ?thesis by (rule finite_subset) simp
qed

lemma deps_of_dep_rel:
  "n \<in> fmdom' cs \<Longrightarrow> d \<in> set (deps_of cs n) \<Longrightarrow> d \<in> fmdom' cs \<Longrightarrow> (n, d) \<in> dep_rel cs"
  by (cases "fmlookup cs n") (auto simp: dep_rel_def deps_of_def)

lemma dep_rel_deps_of: "(n, d) \<in> dep_rel cs \<Longrightarrow> d \<in> set (deps_of cs n)"
  by (auto simp: dep_rel_def deps_of_def)

lemma deps_registered_lookup:
  assumes "deps_registered cs" "n \<in> fmdom' cs" "x \<in> set (deps_of cs n)"
  shows "fmlookup cs x \<noteq> None"
proof -
  from assms have "x \<in> fmdom' cs" unfolding deps_registered_def by blast
  then show ?thesis by (simp add: fmlookup_dom'_iff)
qed

lemma ready_empty_all_emitted:
  assumes ac: "acyclic (dep_rel cs)" and reg: "deps_registered cs"
    and sub: "set xs \<subseteq> fmdom' cs" and re: "ready cs (set xs) = {}"
  shows "set xs = fmdom' cs"
proof (rule ccontr)
  assume "set xs \<noteq> fmdom' cs"
  with sub obtain x where x: "x \<in> fmdom' cs - set xs" by blast
  from finite_acyclic_wf_converse[OF finite_dep_rel ac] have "wf ((dep_rel cs)\<inverse>)" .
  from wfE_min[OF this x] obtain z where
    z: "z \<in> fmdom' cs - set xs" and
    m: "\<And>y. (y, z) \<in> (dep_rel cs)\<inverse> \<Longrightarrow> y \<notin> fmdom' cs - set xs"
    by blast
  have "set (deps_of cs z) \<subseteq> set xs"
  proof
    fix d assume d: "d \<in> set (deps_of cs z)"
    with reg z have dd: "d \<in> fmdom' cs" by (auto simp: deps_registered_def)
    from deps_of_dep_rel[OF _ d dd] z have "(d, z) \<in> (dep_rel cs)\<inverse>" by simp
    from m[OF this] dd show "d \<in> set xs" by simp
  qed
  with z have "z \<in> ready cs (set xs)" by (simp add: ready_def)
  with re show False by simp
qed

lemma least_ready_sequence_acyclic:
  assumes lrs: "least_ready_sequence cs xs" and all: "set xs = fmdom' cs"
  shows "acyclic (dep_rel cs)"
proof -
  have reach: "d \<in> set (take i xs)" if "(n, d) \<in> (dep_rel cs)\<^sup>+" "i < length xs" "xs ! i = n" for n d i
    using that
  proof (induction rule: trancl_induct)
    case (base y)
    from dep_rel_deps_of[OF base(1)] least_ready_sequence_props(3)[OF lrs] base(2,3)
    show ?case by auto
  next
    case (step y z)
    from step.IH[OF step.prems] obtain j where j: "j < i" "xs ! j = y"
      using step.prems(1) by (auto simp: in_set_conv_nth)
    from j step.prems(1) have "j < length xs" by simp
    with least_ready_sequence_props(3)[OF lrs] j(2)
    have "set (deps_of cs y) \<subseteq> set (take j xs)" by blast
    with dep_rel_deps_of[OF step.hyps(2)]
    have "z \<in> set (take j xs)" by blast
    with j(1) show ?case by (meson order_less_imp_le set_take_subset_set_take subsetD)
  qed
  have "(n, n) \<notin> (dep_rel cs)\<^sup>+" for n
  proof
    assume c: "(n, n) \<in> (dep_rel cs)\<^sup>+"
    then obtain z where "(n, z) \<in> dep_rel cs" by (meson tranclD)
    then have "n \<in> fmdom' cs" by (auto simp: dep_rel_def intro: fmdom'I)
    with all have "n \<in> set xs" by simp
    then obtain i where i: "i < length xs" "xs ! i = n" by (auto simp: in_set_conv_nth)
    from reach[OF c i] have "n \<in> set (take i xs)" .
    moreover from lrs i have "n \<notin> set (take i xs)"
      by (auto simp: least_ready_sequence_def ready_def)
    ultimately show False by simp
  qed
  then show ?thesis by (simp add: acyclic_def)
qed

lemma least_ready_sequence_take_eq:
  assumes "least_ready_sequence cs xs" "least_ready_sequence cs ys" "length xs = length ys"
  shows "i \<le> length xs \<Longrightarrow> take i xs = take i ys"
proof (induction i)
  case 0
  then show ?case by simp
next
  case (Suc i)
  then have i: "i < length xs" "i < length ys" and eq: "take i xs = take i ys"
    using assms(3) by simp_all
  from assms(1) i(1) have x: "xs ! i \<in> ready cs (set (take i xs))"
    "\<forall>n\<in>ready cs (set (take i xs)). xs ! i \<le> n"
    by (simp_all add: least_ready_sequence_def)
  from assms(2) i(2) have y: "ys ! i \<in> ready cs (set (take i ys))"
    "\<forall>n\<in>ready cs (set (take i ys)). ys ! i \<le> n"
    by (simp_all add: least_ready_sequence_def)
  from x y eq have "xs ! i \<le> ys ! i" "ys ! i \<le> xs ! i" by simp_all
  then have "xs ! i = ys ! i" by simp
  with eq i show ?case by (simp add: take_Suc_conv_app_nth)
qed

lemma least_ready_sequence_unique:
  assumes "least_ready_sequence cs xs" "least_ready_sequence cs ys"
    and "set xs = fmdom' cs" "set ys = fmdom' cs"
  shows "xs = ys"
proof -
  from assms have "length xs = length ys"
    by (metis distinct_card least_ready_sequence_props(1))
  from least_ready_sequence_take_eq[OF assms(1,2) this, of "length xs"] this
  show ?thesis by simp
qed

lemma getOrderedComponents_acyclic:
  assumes r: "range_of cs ks1" "range_of cs ks2" "range_of cs ks3"
    and reg: "deps_registered cs" and ac: "acyclic (dep_rel cs)"
  shows "\<exists>xs. getOrderedComponents cs ks1 ks2 ks3 = Inr xs
           \<and> least_ready_sequence cs xs \<and> set xs = fmdom' cs"
proof -
  from r(2) have "set ks2 = fmdom' cs" by (simp add: range_of_def)
  with deps_registered_lookup[OF reg]
  have "\<forall>n\<in>set ks2. \<forall>x\<in>set (deps_of cs n). fmlookup cs x \<noteq> None"
    by blast
  from build_graph_registered[OF this] obtain g d where
    b: "build_graph cs ks2 (init_graph ks1 (fmempty, fmempty)) = Inr (g, d)"
    by (metis surj_pair)
  let ?xs = "topo_sort g (sources ks3 d) [] d"
  from topo_sort_correct[OF kahn_inv_initial[OF build_graph_graph_of(1)[OF r(1,2) b] r(3)]]
  have lrs: "least_ready_sequence cs ?xs" and re: "ready cs (set ?xs) = {}" by simp_all
  from ready_empty_all_emitted[OF ac reg least_ready_sequence_props(2)[OF lrs] re]
  have all: "set ?xs = fmdom' cs" .
  with least_ready_sequence_props(1)[OF lrs] have "length ?xs = card (fmdom' cs)"
    by (metis distinct_card)
  with b have "getOrderedComponents cs ks1 ks2 ks3 = Inr ?xs"
    by (simp add: getOrderedComponents_def)
  with lrs all show ?thesis by blast
qed

lemma getOrderedComponents_Inr:
  assumes r: "range_of cs ks1" "range_of cs ks2" "range_of cs ks3"
    and ok: "getOrderedComponents cs ks1 ks2 ks3 = Inr xs"
  shows "deps_registered cs" and "least_ready_sequence cs xs" and "set xs = fmdom' cs"
    and "acyclic (dep_rel cs)"
proof -
  from ok obtain g d where
    b: "build_graph cs ks2 (init_graph ks1 (fmempty, fmempty)) = Inr (g, d)"
    by (auto simp: getOrderedComponents_def split: sum.splits)
  with ok have xs: "xs = topo_sort g (sources ks3 d) [] d" and len: "length xs = card (fmdom' cs)"
    by (auto simp: getOrderedComponents_def Let_def split: if_splits)
  from build_graph_graph_of[OF r(1,2) b] show "deps_registered cs" by simp
  from topo_sort_correct[OF kahn_inv_initial[OF build_graph_graph_of(1)[OF r(1,2) b] r(3)]] xs
  show lrs: "least_ready_sequence cs xs" by simp
  from least_ready_sequence_props(1,2)[OF lrs] len
  show all: "set xs = fmdom' cs"
    by (metis card_subset_eq distinct_card finite_fmdom')
  from least_ready_sequence_acyclic[OF lrs all] show "acyclic (dep_rel cs)" .
qed

lemma getOrderedComponents_missing:
  assumes r: "range_of cs ks1" "range_of cs ks2" "range_of cs ks3"
    and nreg: "\<not> deps_registered cs"
  shows "\<exists>n\<in>fmdom' cs. \<exists>dep\<in>set (deps_of cs n). dep \<notin> fmdom' cs
      \<and> getOrderedComponents cs ks1 ks2 ks3
          = Inl (ErrorString (''dependency '' @ dep @ '' not found for component '' @ n))"
proof (cases "build_graph cs ks2 (init_graph ks1 (fmempty, fmempty))")
  case (Inl err)
  from build_graph_Inl[OF Inl] r(2) obtain n dep where
    "n \<in> fmdom' cs" "dep \<in> set (deps_of cs n)" "dep \<notin> fmdom' cs"
    "err = ErrorString (''dependency '' @ dep @ '' not found for component '' @ n)"
    by (auto simp: range_of_def fmdom'_notI)
  with Inl show ?thesis by (auto simp: getOrderedComponents_def)
next
  case (Inr gd)
  obtain g d where "gd = (g, d)" by (cases gd)
  with Inr build_graph_graph_of(2)[OF r(1,2)] nreg show ?thesis by blast
qed

lemma getOrderedComponents_cyclic:
  assumes r: "range_of cs ks1" "range_of cs ks2" "range_of cs ks3"
    and reg: "deps_registered cs" and cyc: "\<not> acyclic (dep_rel cs)"
  shows "getOrderedComponents cs ks1 ks2 ks3 = Inl (ErrorString ''cyclic dependency detected'')"
proof -
  from r(2) have "set ks2 = fmdom' cs" by (simp add: range_of_def)
  with deps_registered_lookup[OF reg]
  have "\<forall>n\<in>set ks2. \<forall>x\<in>set (deps_of cs n). fmlookup cs x \<noteq> None"
    by blast
  from build_graph_registered[OF this] obtain g d where
    b: "build_graph cs ks2 (init_graph ks1 (fmempty, fmempty)) = Inr (g, d)"
    by (metis surj_pair)
  show ?thesis
  proof (cases "getOrderedComponents cs ks1 ks2 ks3")
    case (Inl err)
    with b show ?thesis
      by (auto simp: getOrderedComponents_def Let_def split: if_splits)
  next
    case (Inr xs)
    from getOrderedComponents_Inr(4)[OF r Inr] cyc show ?thesis by simp
  qed
qed

section \<open>Runs of the start and stop loops\<close>

lemma same_graph_refl: "same_graph cs cs"
  by (simp add: same_graph_def)

lemma same_graph_trans: "same_graph a b \<Longrightarrow> same_graph b c \<Longrightarrow> same_graph a c"
  by (simp add: same_graph_def)

lemma same_graph_sym: "same_graph a b \<Longrightarrow> same_graph b a"
  by (simp add: same_graph_def)

lemma same_graph_lookup:
  assumes "same_graph cs cs'" "fmlookup cs n = Some c"
  shows "\<exists>c'. fmlookup cs' n = Some c' \<and> dependencies c' = dependencies c
           \<and> instance_lc c' = instance_lc c \<and> key c' = key c"
proof -
  from assms(1) have "map_option (\<lambda>c. (dependencies c, instance_lc c, key c)) (fmlookup cs n)
      = map_option (\<lambda>c. (dependencies c, instance_lc c, key c)) (fmlookup cs' n)"
    unfolding same_graph_def by blast
  with assms(2) show ?thesis by (cases "fmlookup cs' n") auto
qed

lemma same_graph_None:
  assumes "same_graph cs cs'" "fmlookup cs n = None"
  shows "fmlookup cs' n = None"
proof -
  from assms(1) have "map_option (\<lambda>c. (dependencies c, instance_lc c, key c)) (fmlookup cs n)
      = map_option (\<lambda>c. (dependencies c, instance_lc c, key c)) (fmlookup cs' n)"
    unfolding same_graph_def by blast
  with assms(2) show ?thesis by simp
qed

lemma same_graph_dom: "same_graph cs cs' \<Longrightarrow> fmdom' cs' = fmdom' cs"
proof -
  assume a: "same_graph cs cs'"
  have "n \<in> fmdom' cs' \<longleftrightarrow> n \<in> fmdom' cs" for n
    using same_graph_lookup[OF a, of n] same_graph_None[OF a, of n]
    by (cases "fmlookup cs n") (auto simp: fmlookup_dom'_iff)
  then show ?thesis by blast
qed

lemma same_graph_deps_of: "same_graph cs cs' \<Longrightarrow> deps_of cs' n = deps_of cs n"
  using same_graph_lookup[of cs cs' n] same_graph_None[of cs cs' n]
  by (cases "fmlookup cs n") (auto simp: deps_of_def GetDependencies_def)

lemma dep_rel_deps_of_eq:
  "dep_rel cs = {(n, d). d \<in> set (deps_of cs n) \<and> d \<in> fmdom' cs}"
proof -
  have "(\<exists>c. fmlookup cs n = Some c \<and> d \<in> set (GetDependencies c)) \<longleftrightarrow> d \<in> set (deps_of cs n)" for n d
    by (cases "fmlookup cs n") (simp_all add: deps_of_def)
  then show ?thesis unfolding dep_rel_def by blast
qed

lemma same_graph_dep_rel: "same_graph cs cs' \<Longrightarrow> dep_rel cs' = dep_rel cs"
  by (simp add: dep_rel_deps_of_eq same_graph_dom same_graph_deps_of)

lemma same_graph_deps_registered:
  "same_graph cs cs' \<Longrightarrow> deps_registered cs' = deps_registered cs"
  by (simp add: deps_registered_def same_graph_dom same_graph_deps_of)

lemma same_graph_valid_ranges: "same_graph cs cs' \<Longrightarrow> valid_ranges cs' r = valid_ranges cs r"
  by (simp add: valid_ranges_def range_of_def same_graph_dom)

lemma same_graph_dependency_view:
  "same_graph cs cs' \<Longrightarrow> dependency_view cs' deps = dependency_view cs deps"
proof -
  assume a: "same_graph cs cs'"
  have "map_option instance_lc (fmlookup cs' d) = map_option instance_lc (fmlookup cs d)" for d
    using same_graph_lookup[OF a, of d] same_graph_None[OF a, of d]
    by (cases "fmlookup cs d") auto
  then show ?thesis unfolding dependency_view_def by presburger
qed

lemma same_graph_fmupd:
  assumes "fmlookup cs n = Some c" "dependencies c' = dependencies c"
    "instance_lc c' = instance_lc c" "key c' = key c"
  shows "same_graph cs (fmupd n c' cs)"
  using assms by (simp add: same_graph_def)

lemma fmupd_same: "fmlookup cs n = Some c \<Longrightarrow> fmupd n c cs = cs"
  by (rule fmap_ext) auto

lemma is_started_iff: "is_started cs n \<longleftrightarrow> (\<exists>c. fmlookup cs n = Some c \<and> started c)"
  by (cases "fmlookup cs n") (simp_all add: is_started_def)

lemma dependency_context_Inr:
  "dependency_context cs name deps ctx = Inr ctx' \<Longrightarrow>
     (\<forall>d\<in>set deps. is_started cs d)
     \<and> ctx' = (\<lambda>d. if d \<in> set deps then map_option instance_lc (fmlookup cs d) else ctx d)"
proof (induction deps arbitrary: ctx)
  case Nil
  then show ?case by simp
next
  case (Cons dep deps)
  from Cons.prems obtain c where c: "fmlookup cs dep = Some c" "started c"
    and r: "dependency_context cs name deps (ctx(dep \<mapsto> instance_lc c)) = Inr ctx'"
    by (auto simp: IsStarted_def split: option.splits if_splits)
  from Cons.IH[OF r] have a: "\<forall>d\<in>set deps. is_started cs d"
    and b: "ctx' = (\<lambda>d. if d \<in> set deps then map_option instance_lc (fmlookup cs d)
                     else (ctx(dep \<mapsto> instance_lc c)) d)"
    by simp_all
  from c a have "\<forall>d\<in>set (dep # deps). is_started cs d" by (simp add: is_started_iff)
  moreover from b c have
    "ctx' = (\<lambda>d. if d \<in> set (dep # deps) then map_option instance_lc (fmlookup cs d) else ctx d)"
    by auto
  ultimately show ?case by simp
qed

lemma dependency_context_started:
  "\<forall>d\<in>set deps. is_started cs d \<Longrightarrow> \<exists>ctx'. dependency_context cs name deps ctx = Inr ctx'"
proof (induction deps arbitrary: ctx)
  case Nil
  then show ?case by simp
next
  case (Cons dep deps)
  then show ?case by (auto simp: is_started_iff IsStarted_def)
qed

lemma dependency_context_view:
  "dependency_context cs name deps Map.empty = Inr ctx \<Longrightarrow> ctx = dependency_view cs deps"
  by (drule dependency_context_Inr) (simp add: dependency_view_def)

lemma Component_Start_Inr:
  assumes "Component_Start L c ctx e = (Inr l, c', e1)"
  shows "c' = (if started c then c else c\<lparr>result := Some l, started := True\<rparr>)"
    and "started c \<Longrightarrow> l = instance_lc c \<and> e1 = e"
    and "\<not> started c \<Longrightarrow> \<exists>w'. lc_Start L (instance_lc c) ctx (world e) = ((l, None), w')
            \<and> e1 = \<lparr>world = w', calls = calls e @ [StartCall (instance_lc c) ctx l None]\<rparr>"
  using assms
  by (auto simp: Component_Start_def Let_def split: if_splits prod.splits option.splits)

lemma Component_Start_Inl:
  assumes "Component_Start L c ctx e = (Inl err, c', e1)"
  shows "\<not> started c" and "c' = c"
    and "\<exists>res er w'. lc_Start L (instance_lc c) ctx (world e) = ((res, Some er), w')
            \<and> err = Errorf_w ''failed to start component: '' er
            \<and> e1 = \<lparr>world = w', calls = calls e @ [StartCall (instance_lc c) ctx res (Some er)]\<rparr>"
  using assms
  by (auto simp: Component_Start_def Let_def split: if_splits prod.splits option.splits)

lemma start_components_step:
  assumes "fmlookup (components s) n = Some c"
    and "\<forall>d\<in>set (dependencies c). is_started (components s) d"
    and "Component_Start L c (dependency_view (components s) (dependencies c)) e = (Inr l, c', e1)"
  shows "start_components L (n # ns) s e
      = start_components L ns
          (s\<lparr>components := fmupd n c' (components s),
             sys_context := (sys_context s)(n \<mapsto> l)\<rparr>) e1"
proof -
  from dependency_context_started[OF assms(2), of n Map.empty] obtain ctx where
    ctx: "dependency_context (components s) n (dependencies c) Map.empty = Inr ctx" by blast
  from dependency_context_view[OF ctx] ctx assms(1,3) show ?thesis
    by (simp add: GetDependencies_def)
qed

lemma start_components_fail:
  assumes "fmlookup (components s) n = Some c"
    and "\<forall>d\<in>set (dependencies c). is_started (components s) d"
    and "Component_Start L c (dependency_view (components s) (dependencies c)) e = (Inl err, c', e1)"
  shows "start_components L (n # ns) s e
      = (Some (Errorf_w (''failed to start component '' @ n @ '': '') err), s, e1)"
proof -
  from dependency_context_started[OF assms(2), of n Map.empty] obtain ctx where
    ctx: "dependency_context (components s) n (dependencies c) Map.empty = Inr ctx" by blast
  from Component_Start_Inl(2)[OF assms(3)] have "c' = c" .
  with dependency_context_view[OF ctx] ctx assms(1,3) fmupd_same[OF assms(1)] show ?thesis
    by (simp add: GetDependencies_def)
qed


lemma start_components_Cons_NoneE:
  assumes "start_components L (n # ns) s e = (None, s', e')"
  obtains c l c' e1 where "fmlookup (components s) n = Some c"
    and "\<forall>d\<in>set (dependencies c). is_started (components s) d"
    and "Component_Start L c (dependency_view (components s) (dependencies c)) e = (Inr l, c', e1)"
    and "start_components L ns
           (s\<lparr>components := fmupd n c' (components s),
              sys_context := (sys_context s)(n \<mapsto> l)\<rparr>) e1 = (None, s', e')"
proof -
  from assms obtain c where c: "fmlookup (components s) n = Some c"
    by (cases "fmlookup (components s) n") auto
  from assms c obtain ctx where
    ctx: "dependency_context (components s) n (dependencies c) Map.empty = Inr ctx"
    by (cases "dependency_context (components s) n (dependencies c) Map.empty")
       (auto simp: GetDependencies_def)
  note v = dependency_context_view[OF ctx]
  from dependency_context_Inr[OF ctx] have st: "\<forall>d\<in>set (dependencies c). is_started (components s) d"
    by simp
  obtain r c' e1 where cs: "Component_Start L c ctx e = (r, c', e1)"
    by (cases "Component_Start L c ctx e")
  from assms c ctx cs obtain l where l: "r = Inr l"
    by (cases r) (auto simp: GetDependencies_def)
  from assms c ctx cs l have
    "start_components L ns
           (s\<lparr>components := fmupd n c' (components s),
              sys_context := (sys_context s)(n \<mapsto> l)\<rparr>) e1 = (None, s', e')"
    by (simp add: GetDependencies_def)
  with c st cs l v that show thesis by simp
qed

lemma start_components_None:
  assumes "start_components L names s e = (None, s', e')" "distinct names"
  shows "sys_started s' = sys_started s \<and> same_graph (components s) (components s')
    \<and> (\<forall>n. n \<notin> set names \<longrightarrow>
          fmlookup (components s') n = fmlookup (components s) n \<and> sys_context s' n = sys_context s n)
    \<and> (\<forall>n\<in>set names. \<exists>c l. fmlookup (components s) n = Some c \<and> sys_context s' n = Some l
          \<and> fmlookup (components s') n
               = Some (if started c then c else c\<lparr>result := Some l, started := True\<rparr>)
          \<and> (started c \<longrightarrow> l = instance_lc c))
    \<and> calls e' = calls e @
          map (\<lambda>n. StartCall (instance_lc (the (fmlookup (components s) n)))
                      (dependency_view (components s) (deps_of (components s) n))
                      (the (sys_context s' n)) None)
              (filter (\<lambda>n. \<not> is_started (components s) n) names)"
  using assms
proof (induction names arbitrary: s e)
  case Nil
  then show ?case by (simp add: same_graph_refl)
next
  case (Cons n ns)
  from Cons.prems(2) have nn: "n \<notin> set ns" and dn: "distinct ns" by simp_all
  from Cons.prems(1) obtain c l c' e1 where
    c: "fmlookup (components s) n = Some c" and
    cs: "Component_Start L c (dependency_view (components s) (dependencies c)) e = (Inr l, c', e1)" and
    r: "start_components L ns
           (s\<lparr>components := fmupd n c' (components s),
              sys_context := (sys_context s)(n \<mapsto> l)\<rparr>) e1 = (None, s', e')"
    by (rule start_components_Cons_NoneE)
  let ?s1 = "s\<lparr>components := fmupd n c' (components s), sys_context := (sys_context s)(n \<mapsto> l)\<rparr>"
  note c' = Component_Start_Inr(1)[OF cs]
  from c' have sg1: "same_graph (components s) (components ?s1)"
    by (auto intro!: same_graph_fmupd[OF c])
  from Cons.IH[OF r dn] have
    i1: "sys_started s' = sys_started ?s1" and
    i2: "same_graph (components ?s1) (components s')" and
    i3: "\<And>m. m \<notin> set ns \<Longrightarrow>
          fmlookup (components s') m = fmlookup (components ?s1) m \<and> sys_context s' m = sys_context ?s1 m" and
    i4: "\<forall>m\<in>set ns. \<exists>c l. fmlookup (components ?s1) m = Some c \<and> sys_context s' m = Some l
          \<and> fmlookup (components s') m
               = Some (if started c then c else c\<lparr>result := Some l, started := True\<rparr>)
          \<and> (started c \<longrightarrow> l = instance_lc c)" and
    i5: "calls e' = calls e1 @
          map (\<lambda>m. StartCall (instance_lc (the (fmlookup (components ?s1) m)))
                      (dependency_view (components ?s1) (deps_of (components ?s1) m))
                      (the (sys_context s' m)) None)
              (filter (\<lambda>m. \<not> is_started (components ?s1) m) ns)"
    by simp_all
  have g1: "sys_started s' = sys_started s" using i1 by simp
  have g2: "same_graph (components s) (components s')"
    by (rule same_graph_trans[OF sg1 i2])
  have g3: "fmlookup (components s') m = fmlookup (components s) m \<and> sys_context s' m = sys_context s m"
    if "m \<notin> set (n # ns)" for m
    using i3[of m] that by auto
  from i3[OF nn] have ln: "fmlookup (components s') n = Some c'" "sys_context s' n = Some l"
    by simp_all
  have g4n: "\<exists>c l. fmlookup (components s) n = Some c \<and> sys_context s' n = Some l
          \<and> fmlookup (components s') n
               = Some (if started c then c else c\<lparr>result := Some l, started := True\<rparr>)
          \<and> (started c \<longrightarrow> l = instance_lc c)"
    using c ln c' Component_Start_Inr(2)[OF cs] by auto
  have g4: "\<exists>c l. fmlookup (components s) m = Some c \<and> sys_context s' m = Some l
          \<and> fmlookup (components s') m
               = Some (if started c then c else c\<lparr>result := Some l, started := True\<rparr>)
          \<and> (started c \<longrightarrow> l = instance_lc c)" if "m \<in> set (n # ns)" for m
  proof (cases "m = n")
    case True
    with g4n show ?thesis by simp
  next
    case False
    with that have mem: "m \<in> set ns" by simp
    with i4 obtain c2 l2 where
      a: "fmlookup (components ?s1) m = Some c2" "sys_context s' m = Some l2"
         "fmlookup (components s') m
               = Some (if started c2 then c2 else c2\<lparr>result := Some l2, started := True\<rparr>)"
         "started c2 \<longrightarrow> l2 = instance_lc c2"
      by blast
    from False a(1) have "fmlookup (components s) m = Some c2" by simp
    with a(2,3,4) show ?thesis by blast
  qed
  let ?cs1 = "fmupd n c' (components s)"
  have sg1': "same_graph (components s) ?cs1" using sg1 by simp
  have same: "instance_lc (the (fmlookup ?cs1 m)) = instance_lc (the (fmlookup (components s) m))
      \<and> dependency_view ?cs1 (deps_of ?cs1 m)
          = dependency_view (components s) (deps_of (components s) m)
      \<and> is_started ?cs1 m = is_started (components s) m" if "m \<in> set ns" for m
  proof -
    from that nn have "m \<noteq> n" by blast
    then have "fmlookup ?cs1 m = fmlookup (components s) m" by simp
    then have "instance_lc (the (fmlookup ?cs1 m)) = instance_lc (the (fmlookup (components s) m))"
      and "is_started ?cs1 m = is_started (components s) m"
      by (simp_all only: is_started_def)
    moreover have "dependency_view ?cs1 (deps_of ?cs1 m)
          = dependency_view (components s) (deps_of (components s) m)"
      by (simp only: same_graph_dependency_view[OF sg1'] same_graph_deps_of[OF sg1'])
    ultimately show ?thesis by blast
  qed
  have fil: "filter (\<lambda>m. \<not> is_started ?cs1 m) ns
      = filter (\<lambda>m. \<not> is_started (components s) m) ns"
    by (rule filter_cong) (simp_all only: same)
  have mp: "map (\<lambda>m. StartCall (instance_lc (the (fmlookup ?cs1 m)))
                      (dependency_view ?cs1 (deps_of ?cs1 m))
                      (the (sys_context s' m)) None)
              (filter (\<lambda>m. \<not> is_started (components s) m) ns)
      = map (\<lambda>m. StartCall (instance_lc (the (fmlookup (components s) m)))
                      (dependency_view (components s) (deps_of (components s) m))
                      (the (sys_context s' m)) None)
              (filter (\<lambda>m. \<not> is_started (components s) m) ns)"
    by (rule map_cong) (simp_all only: same set_filter mem_Collect_eq)
  have "calls e' = calls e1 @
          map (\<lambda>m. StartCall (instance_lc (the (fmlookup ?cs1 m)))
                      (dependency_view ?cs1 (deps_of ?cs1 m))
                      (the (sys_context s' m)) None)
              (filter (\<lambda>m. \<not> is_started ?cs1 m) ns)"
    using i5 by simp
  then have i5': "calls e' = calls e1 @
          map (\<lambda>m. StartCall (instance_lc (the (fmlookup (components s) m)))
                      (dependency_view (components s) (deps_of (components s) m))
                      (the (sys_context s' m)) None)
              (filter (\<lambda>m. \<not> is_started (components s) m) ns)"
    by (simp only: fil mp)
  have g5: "calls e' = calls e @
          map (\<lambda>m. StartCall (instance_lc (the (fmlookup (components s) m)))
                      (dependency_view (components s) (deps_of (components s) m))
                      (the (sys_context s' m)) None)
              (filter (\<lambda>m. \<not> is_started (components s) m) (n # ns))"
  proof (cases "started c")
    case True
    with Component_Start_Inr(2)[OF cs] c i5' show ?thesis
      by (simp add: is_started_def)
  next
    case False
    from Component_Start_Inr(3)[OF cs False] obtain w' where
      "e1 = \<lparr>world = w', calls = calls e @ [StartCall (instance_lc c)
               (dependency_view (components s) (dependencies c)) l None]\<rparr>" by blast
    with False c ln i5' show ?thesis
      by (simp add: is_started_def deps_of_def GetDependencies_def)
  qed
  from g1 g2 g3 g4 g5 show ?case by blast
qed

lemma Component_Start_Inr_props:
  assumes "Component_Start L c ctx e = (Inr l, c', e1)"
  shows "started c'" "dependencies c' = dependencies c" "instance_lc c' = instance_lc c"
    "key c' = key c"
  using Component_Start_Inr(1)[OF assms] by (auto split: if_splits)

lemma start_components_Some:
  assumes "start_components L names s e = (Some err, s', e')" "distinct names"
    and "\<forall>n\<in>set names. n \<in> fmdom' (components s)"
    and "\<forall>i<length names. \<forall>d\<in>set (deps_of (components s) (names ! i)).
           d \<in> set (take i names) \<or> is_started (components s) d"
  shows "\<exists>k<length names. \<exists>e1 c res er w'.
       start_components L (take k names) s e = (None, s', e1)
     \<and> fmlookup (components s) (names ! k) = Some c \<and> \<not> started c
     \<and> lc_Start L (instance_lc c) (dependency_view (components s) (dependencies c)) (world e1)
          = ((res, Some er), w')
     \<and> err = Errorf_w (''failed to start component '' @ names ! k @ '': '')
               (Errorf_w ''failed to start component: '' er)
     \<and> e' = \<lparr>world = w', calls = calls e1 @
               [StartCall (instance_lc c) (dependency_view (components s) (dependencies c))
                  res (Some er)]\<rparr>"
  using assms
proof (induction names arbitrary: s e)
  case Nil
  then show ?case by simp
next
  case (Cons n ns)
  from Cons.prems(2) have nn: "n \<notin> set ns" and dn: "distinct ns" by simp_all
  from Cons.prems(3) obtain c where c: "fmlookup (components s) n = Some c"
    by (auto simp: fmlookup_dom'_iff)
  then have dc: "deps_of (components s) n = dependencies c"
    by (simp add: deps_of_def GetDependencies_def)
  from Cons.prems(4)[rule_format, of 0] dc
  have st: "\<forall>d\<in>set (dependencies c). is_started (components s) d" by simp
  let ?ctx = "dependency_view (components s) (dependencies c)"
  obtain r c' e1 where cs: "Component_Start L c ?ctx e = (r, c', e1)"
    by (cases "Component_Start L c ?ctx e")
  show ?case
  proof (cases r)
    case (Inl er1)
    from start_components_fail[OF c st cs[unfolded Inl]] Cons.prems(1)
    have res: "err = Errorf_w (''failed to start component '' @ n @ '': '') er1" "s' = s" "e' = e1"
      by simp_all
    from Component_Start_Inl[OF cs[unfolded Inl]] obtain res0 er w' where
      "\<not> started c" "lc_Start L (instance_lc c) ?ctx (world e) = ((res0, Some er), w')"
      "er1 = Errorf_w ''failed to start component: '' er"
      "e1 = \<lparr>world = w', calls = calls e @ [StartCall (instance_lc c) ?ctx res0 (Some er)]\<rparr>"
      by blast
    with res c show ?thesis
      by (intro exI[of _ 0]) auto
  next
    case (Inr l)
    let ?cs1 = "fmupd n c' (components s)"
    let ?s1 = "s\<lparr>components := ?cs1, sys_context := (sys_context s)(n \<mapsto> l)\<rparr>"
    note p = Component_Start_Inr_props[OF cs[unfolded Inr]]
    from p have sg: "same_graph (components s) ?cs1"
      by (intro same_graph_fmupd[OF c]) simp_all
    from start_components_step[OF c st cs[unfolded Inr], of ns] Cons.prems(1)
    have r1: "start_components L ns ?s1 e1 = (Some err, s', e')" by simp
    have a3: "\<forall>m\<in>set ns. m \<in> fmdom' (components ?s1)"
      using Cons.prems(3) by simp
    have nst: "is_started ?cs1 n" using p(1) by (simp add: is_started_def)
    have keep: "is_started ?cs1 d" if "is_started (components s) d" for d
      using that nst by (cases "d = n") (simp_all add: is_started_def)
    have a4: "\<forall>i<length ns. \<forall>d\<in>set (deps_of (components ?s1) (ns ! i)).
           d \<in> set (take i ns) \<or> is_started (components ?s1) d"
    proof (intro allI impI ballI)
      fix i d assume i: "i < length ns" and "d \<in> set (deps_of (components ?s1) (ns ! i))"
      then have "d \<in> set (deps_of (components s) ((n # ns) ! Suc i))"
        using same_graph_deps_of[OF sg] by simp
      with Cons.prems(4)[rule_format, of "Suc i" d] i
      have "d = n \<or> d \<in> set (take i ns) \<or> is_started (components s) d" by auto
      with nst keep show "d \<in> set (take i ns) \<or> is_started (components ?s1) d" by auto
    qed
    from Cons.IH[OF r1 dn a3 a4] obtain k e2 c2 res er w' where
      k: "k < length ns" and
      pre: "start_components L (take k ns) ?s1 e1 = (None, s', e2)" and
      c2: "fmlookup (components ?s1) (ns ! k) = Some c2" "\<not> started c2" and
      lc: "lc_Start L (instance_lc c2) (dependency_view (components ?s1) (dependencies c2)) (world e2)
          = ((res, Some er), w')" and
      er: "err = Errorf_w (''failed to start component '' @ ns ! k @ '': '')
               (Errorf_w ''failed to start component: '' er)" and
      e': "e' = \<lparr>world = w', calls = calls e2 @
               [StartCall (instance_lc c2) (dependency_view (components ?s1) (dependencies c2))
                  res (Some er)]\<rparr>"
      by blast
    from k nn have "ns ! k \<noteq> n" by (metis nth_mem)
    with c2(1) have c2': "fmlookup (components s) (ns ! k) = Some c2" by simp
    have dv: "dependency_view (components ?s1) (dependencies c2)
        = dependency_view (components s) (dependencies c2)"
      using same_graph_dependency_view[OF sg] by simp
    from start_components_step[OF c st cs[unfolded Inr], of "take k ns"] pre
    have "start_components L (take (Suc k) (n # ns)) s e = (None, s', e2)" by simp
    with k c2' c2(2) lc er e' dv show ?thesis
      by (intro exI[of _ "Suc k"]) auto
  qed
qed

lemma Component_Stop_started:
  assumes "started c"
  shows "Component_Stop L c ctx e
      = (map_option (Errorf_w ''failed to stop component: '') (fst (lc_Stop L (instance_lc c) ctx (world e))),
         (if fst (lc_Stop L (instance_lc c) ctx (world e)) = None then c\<lparr>started := False\<rparr> else c),
         \<lparr>world = snd (lc_Stop L (instance_lc c) ctx (world e)),
          calls = calls e @ [StopCall (instance_lc c) ctx (fst (lc_Stop L (instance_lc c) ctx (world e)))]\<rparr>)"
  using assms
  by (cases "lc_Stop L (instance_lc c) ctx (world e)")
     (auto simp: Component_Stop_def Let_def split: option.splits)

lemma last_stop_error_Cons:
  "last_stop_error lastErr ((n, out) # outs)
     = last_stop_error (case out of None \<Rightarrow> lastErr | Some er \<Rightarrow> Some (stop_error (n, er))) outs"
  by (cases out; cases "stop_failures outs")
     (simp_all add: last_stop_error_def stop_failures_def List.map_filter_simps)

lemma stop_components_run:
  assumes "distinct names" "\<forall>n\<in>set names. is_started (components s) n"
  shows "\<exists>outs s' e'. length outs = length names
     \<and> stop_components L names s e lastErr = (last_stop_error lastErr (zip names outs), s', e')
     \<and> calls e' = calls e @
          map (\<lambda>(n, out). StopCall (instance_lc (the (fmlookup (components s) n))) (sys_context s) out)
              (zip names outs)
     \<and> sys_context s' = sys_context s \<and> sys_started s' = sys_started s
     \<and> same_graph (components s) (components s')
     \<and> (\<forall>n. n \<notin> set names \<longrightarrow> fmlookup (components s') n = fmlookup (components s) n)
     \<and> (\<forall>i<length names. fmlookup (components s') (names ! i)
           = map_option (\<lambda>c. if outs ! i = None then c\<lparr>started := False\<rparr> else c)
               (fmlookup (components s) (names ! i)))"
  using assms
proof (induction names arbitrary: s e lastErr)
  case Nil
  then show ?case by (simp add: last_stop_error_def stop_failures_def List.map_filter_simps same_graph_refl)
next
  case (Cons n ns)
  from Cons.prems(1) have nn: "n \<notin> set ns" and dn: "distinct ns" by simp_all
  from Cons.prems(2) obtain c where c: "fmlookup (components s) n = Some c" "started c"
    by (auto simp: is_started_iff)
  let ?out = "fst (lc_Stop L (instance_lc c) (sys_context s) (world e))"
  let ?c' = "if ?out = None then c\<lparr>started := False\<rparr> else c"
  let ?e1 = "\<lparr>world = snd (lc_Stop L (instance_lc c) (sys_context s) (world e)),
          calls = calls e @ [StopCall (instance_lc c) (sys_context s) ?out]\<rparr>"
  let ?cs1 = "fmupd n ?c' (components s)"
  let ?s1 = "s\<lparr>components := ?cs1\<rparr>"
  let ?le1 = "case ?out of None \<Rightarrow> lastErr | Some er \<Rightarrow> Some (stop_error (n, er))"
  have step: "stop_components L (n # ns) s e lastErr = stop_components L ns ?s1 ?e1 ?le1"
    using c Component_Stop_started[OF c(2), of L "sys_context s" e]
    by (cases ?out) (simp_all add: stop_error_def)
  have sg: "same_graph (components s) ?cs1"
    by (intro same_graph_fmupd[OF c(1)]) simp_all
  have st1: "\<forall>m\<in>set ns. is_started (components ?s1) m"
  proof
    fix m assume "m \<in> set ns"
    with nn Cons.prems(2) show "is_started (components ?s1) m"
      by (cases "m = n") (simp_all add: is_started_def)
  qed
  from Cons.IH[OF dn st1, of ?e1 ?le1] obtain outs s' e' where
    i0: "length outs = length ns" and
    i1: "stop_components L ns ?s1 ?e1 ?le1 = (last_stop_error ?le1 (zip ns outs), s', e')" and
    i2: "calls e' = calls ?e1 @
          map (\<lambda>(m, out). StopCall (instance_lc (the (fmlookup (components ?s1) m))) (sys_context ?s1) out)
              (zip ns outs)" and
    i3: "sys_context s' = sys_context ?s1" "sys_started s' = sys_started ?s1" and
    i4: "same_graph (components ?s1) (components s')" and
    i5: "\<And>m. m \<notin> set ns \<Longrightarrow> fmlookup (components s') m = fmlookup (components ?s1) m" and
    i6: "\<And>i. i < length ns \<Longrightarrow> fmlookup (components s') (ns ! i)
           = map_option (\<lambda>c. if outs ! i = None then c\<lparr>started := False\<rparr> else c)
               (fmlookup (components ?s1) (ns ! i))"
    by blast
  let ?outs = "?out # outs"
  have g0: "length ?outs = length (n # ns)" using i0 by simp
  have g1: "stop_components L (n # ns) s e lastErr
      = (last_stop_error lastErr (zip (n # ns) ?outs), s', e')"
    using step i1 by (simp add: last_stop_error_Cons)
  have mp: "map (\<lambda>(m, out). StopCall (instance_lc (the (fmlookup ?cs1 m))) (sys_context s) out) (zip ns outs)
      = map (\<lambda>(m, out). StopCall (instance_lc (the (fmlookup (components s) m))) (sys_context s) out) (zip ns outs)"
  proof (rule map_cong[OF refl])
    fix x assume "x \<in> set (zip ns outs)"
    then have "fst x \<in> set ns" by (metis prod.collapse set_zip_leftD)
    with nn have "fst x \<noteq> n" by blast
    then show "(case x of (m, out) \<Rightarrow> StopCall (instance_lc (the (fmlookup ?cs1 m))) (sys_context s) out)
        = (case x of (m, out) \<Rightarrow> StopCall (instance_lc (the (fmlookup (components s) m))) (sys_context s) out)"
      by (cases x) simp
  qed
  have g2: "calls e' = calls e @
          map (\<lambda>(m, out). StopCall (instance_lc (the (fmlookup (components s) m))) (sys_context s) out)
              (zip (n # ns) ?outs)"
  proof -
    have n1: "components ?s1 = ?cs1" "sys_context ?s1 = sys_context s"
      "calls ?e1 = calls e @ [StopCall (instance_lc c) (sys_context s) ?out]"
      by simp_all
    from i2 have "calls e' = (calls e @ [StopCall (instance_lc c) (sys_context s) ?out]) @
        map (\<lambda>(m, out). StopCall (instance_lc (the (fmlookup ?cs1 m))) (sys_context s) out) (zip ns outs)"
      unfolding n1 .
    then have "calls e' = (calls e @ [StopCall (instance_lc c) (sys_context s) ?out]) @
        map (\<lambda>(m, out). StopCall (instance_lc (the (fmlookup (components s) m))) (sys_context s) out) (zip ns outs)"
      by (simp only: mp)
    with c(1) show ?thesis by simp
  qed
  have g3: "sys_context s' = sys_context s" "sys_started s' = sys_started s" using i3 by simp_all
  have g4: "same_graph (components s) (components s')"
    using same_graph_trans[OF _ i4, of "components s"] sg by simp
  have g5: "fmlookup (components s') m = fmlookup (components s) m" if "m \<notin> set (n # ns)" for m
    using i5[of m] that by auto
  have g6: "fmlookup (components s') ((n # ns) ! i)
           = map_option (\<lambda>c. if ?outs ! i = None then c\<lparr>started := False\<rparr> else c)
               (fmlookup (components s) ((n # ns) ! i))" if "i < length (n # ns)" for i
  proof (cases i)
    case 0
    with i5[OF nn] c(1) show ?thesis by simp
  next
    case (Suc j)
    with that have j: "j < length ns" by simp
    with nn have "ns ! j \<noteq> n" by (metis nth_mem)
    with i6[OF j] Suc show ?thesis by simp
  qed
  from g0 g1 g2 g3 g4 g5 g6 show ?case by blast
qed

section \<open>Validation of the graph and the order\<close>

lemma valid_rangesD:
  assumes "valid_ranges cs r"
  shows "range_of cs (check_range r)" "range_of cs (init_range r)"
    "range_of cs (build_range r)" "range_of cs (queue_range r)"
  using assms by (simp_all add: valid_ranges_def)

text \<open>
  C4: when the edges among registered names have a cycle, \<^verbatim>\<open>Start\<close> on a system that is
  not started returns the error \<^verbatim>\<open>cyclic dependency detected involving component\<close>
  followed by a registered name; the system (its components, its context, its started
  flag) and the user state with the record of lifecycle calls are returned as they were,
  so no lifecycle start was invoked.
\<close>

theorem C4_cycle_aborts_Start:
  assumes "valid_ranges (components s) r" and "\<not> sys_started s"
    and "\<not> acyclic (dep_rel (components s))"
  shows "\<exists>name\<in>fmdom' (components s).
           System_Start L r s e
             = (Some (ErrorString (''cyclic dependency detected involving component '' @ name)),
                s, e)"
proof -
  note r = valid_rangesD[OF assms(1)]
  from checkCyclicDependencies_None_acyclic[OF r(1)] assms(3)
  obtain err where err: "checkCyclicDependencies (components s) (check_range r) = Some err"
    by (cases "checkCyclicDependencies (components s) (check_range r)") auto
  from checkCyclicDependencies_Some_cycle(2)[OF r(1) err] err assms(2)
  show ?thesis by (auto simp: System_Start_def)
qed

lemma compCycle_ranges: "valid_ranges compCycle rangesABC"
  by (auto simp: valid_ranges_def range_of_def rangesABC_def compCycle_def)

lemma compCycle_check:
  "checkCyclicDependencies compCycle (check_range rangesABC)
     = Some (ErrorString ''cyclic dependency detected involving component compC'')"
  by code_simp

theorem C4_cycle_aborts_Start_witness:
  "valid_ranges (components (CreateSystem compCycle)) rangesABC
   \<and> \<not> sys_started (CreateSystem compCycle)
   \<and> \<not> acyclic (dep_rel (components (CreateSystem compCycle)))
   \<and> System_Start (MockComponent Map.empty Map.empty) rangesABC (CreateSystem compCycle) mock_env0
       = (Some (ErrorString ''cyclic dependency detected involving component compC''),
          CreateSystem compCycle, mock_env0)"
proof -
  have c: "components (CreateSystem compCycle) = compCycle" by (simp add: CreateSystem_def)
  have h1: "valid_ranges (components (CreateSystem compCycle)) rangesABC"
    using compCycle_ranges c by simp
  have h2: "\<not> sys_started (CreateSystem compCycle)" by (simp add: CreateSystem_def)
  have h3: "\<not> acyclic (dep_rel (components (CreateSystem compCycle)))"
    using checkCyclicDependencies_Some_cycle(1)[OF _ compCycle_check] compCycle_ranges c
    by (simp add: valid_ranges_def)
  from C4_cycle_aborts_Start[OF h1 h2 h3, of "MockComponent Map.empty Map.empty" mock_env0]
  obtain name where
    "System_Start (MockComponent Map.empty Map.empty) rangesABC (CreateSystem compCycle) mock_env0
       = (Some (ErrorString (''cyclic dependency detected involving component '' @ name)),
          CreateSystem compCycle, mock_env0)" by blast
  moreover have
    "fst (System_Start (MockComponent Map.empty Map.empty) rangesABC (CreateSystem compCycle) mock_env0)
       = Some (ErrorString ''cyclic dependency detected involving component compC'')"
    using compCycle_check h2 c by (simp add: System_Start_def)
  ultimately show ?thesis using h1 h2 h3 by simp
qed

text \<open>
  C5 as stated fails where the component set has a cycle among registered names besides
  the unregistered dependency: \<^verbatim>\<open>Start\<close> checks for cycles first and returns the
  cyclic-dependency error, not the missing-dependency error that the order computation
  gives. Here \<open>compA\<close> declares itself and the unregistered \<open>nonExistent\<close>.
\<close>

theorem C5_cycle_first_counterexample:
  "getOrderedComponents compSelfMissing (init_range rangesA) (build_range rangesA) (queue_range rangesA)
     = Inl (ErrorString ''dependency nonExistent not found for component compA'')
   \<and> fst (System_Start (MockComponent Map.empty Map.empty) rangesA (CreateSystem compSelfMissing) mock_env0)
     = Some (ErrorString ''cyclic dependency detected involving component compA'')"
  by code_simp

text \<open>
  C5, amended: when some declared dependency name is not registered, cycle detection
  skips the edge to that name: it reports a cycle exactly when the edges among
  registered names have one. The order computation fails with the error
  \<^verbatim>\<open>dependency d not found for component n\<close> for some component \<open>n\<close> and unregistered
  dependency \<open>d\<close> of it. \<^verbatim>\<open>Start\<close> on a system that is not started returns that error
  when the registered edges are acyclic, and the cyclic-dependency error otherwise; both
  times the system and the record of lifecycle calls are returned as they were.
\<close>

theorem C5_missing_dependency:
  assumes "valid_ranges (components s) r" and "\<not> sys_started s"
    and "\<not> deps_registered (components s)"
  shows "(checkCyclicDependencies (components s) (check_range r) = None
            \<longleftrightarrow> acyclic (dep_rel (components s)))
    \<and> (\<exists>n\<in>fmdom' (components s). \<exists>d\<in>set (deps_of (components s) n). d \<notin> fmdom' (components s)
          \<and> getOrderedComponents (components s) (init_range r) (build_range r) (queue_range r)
               = Inl (ErrorString (''dependency '' @ d @ '' not found for component '' @ n))
          \<and> (acyclic (dep_rel (components s)) \<longrightarrow>
                System_Start L r s e
                  = (Some (ErrorString (''dependency '' @ d @ '' not found for component '' @ n)),
                     s, e)))
    \<and> (\<not> acyclic (dep_rel (components s)) \<longrightarrow>
          (\<exists>name\<in>fmdom' (components s).
             System_Start L r s e
               = (Some (ErrorString (''cyclic dependency detected involving component '' @ name)),
                  s, e)))"
proof -
  note r = valid_rangesD[OF assms(1)]
  note iff = checkCyclicDependencies_acyclic_iff[OF r(1)]
  from getOrderedComponents_missing[OF r(2,3,4) assms(3)] obtain n d where
    nd: "n \<in> fmdom' (components s)" "d \<in> set (deps_of (components s) n)"
      "d \<notin> fmdom' (components s)" and
    g: "getOrderedComponents (components s) (init_range r) (build_range r) (queue_range r)
          = Inl (ErrorString (''dependency '' @ d @ '' not found for component '' @ n))"
    by blast
  have a: "System_Start L r s e
      = (Some (ErrorString (''dependency '' @ d @ '' not found for component '' @ n)), s, e)"
    if "acyclic (dep_rel (components s))"
    using that iff g assms(2) by (simp add: System_Start_def)
  have b: "\<exists>name\<in>fmdom' (components s).
             System_Start L r s e
               = (Some (ErrorString (''cyclic dependency detected involving component '' @ name)),
                  s, e)"
    if "\<not> acyclic (dep_rel (components s))"
  proof -
    from that iff obtain err where
      err: "checkCyclicDependencies (components s) (check_range r) = Some err"
      by (cases "checkCyclicDependencies (components s) (check_range r)") auto
    from checkCyclicDependencies_Some_cycle(2)[OF r(1) err] err assms(2)
    show ?thesis by (auto simp: System_Start_def)
  qed
  from iff nd g a b show ?thesis by blast
qed

lemma compMissing_ranges: "valid_ranges compMissing rangesA"
  by (auto simp: valid_ranges_def range_of_def rangesA_def compMissing_def)

lemma compMissing_order:
  "getOrderedComponents compMissing (init_range rangesA) (build_range rangesA) (queue_range rangesA)
     = Inl (ErrorString ''dependency nonExistent not found for component compA'')"
  by code_simp

lemma compMissing_check: "checkCyclicDependencies compMissing (check_range rangesA) = None"
  by code_simp

theorem C5_missing_dependency_witness:
  "valid_ranges (components (CreateSystem compMissing)) rangesA
   \<and> \<not> sys_started (CreateSystem compMissing)
   \<and> \<not> deps_registered (components (CreateSystem compMissing))
   \<and> acyclic (dep_rel (components (CreateSystem compMissing)))
   \<and> System_Start (MockComponent Map.empty Map.empty) rangesA (CreateSystem compMissing) mock_env0
       = (Some (ErrorString ''dependency nonExistent not found for component compA''),
          CreateSystem compMissing, mock_env0)"
proof -
  have c: "components (CreateSystem compMissing) = compMissing" by (simp add: CreateSystem_def)
  have h1: "valid_ranges (components (CreateSystem compMissing)) rangesA"
    using compMissing_ranges c by simp
  have h2: "\<not> sys_started (CreateSystem compMissing)" by (simp add: CreateSystem_def)
  have h3: "\<not> deps_registered (components (CreateSystem compMissing))"
    unfolding c by (simp add: deps_registered_def compMissing_def deps_of_def
        GetDependencies_def Define_def)
  note t = C5_missing_dependency[OF h1 h2 h3, of "MockComponent Map.empty Map.empty" mock_env0]
  from t compMissing_check c have ac: "acyclic (dep_rel (components (CreateSystem compMissing)))"
    by simp
  from t ac compMissing_order c
  have "System_Start (MockComponent Map.empty Map.empty) rangesA (CreateSystem compMissing) mock_env0
       = (Some (ErrorString ''dependency nonExistent not found for component compA''),
          CreateSystem compMissing, mock_env0)"
    by auto
  with h1 h2 h3 ac show ?thesis by simp
qed

text \<open>
  C7: for any two choices of the orders in which the three \<^verbatim>\<open>range\<close> loops of
  \<^verbatim>\<open>getOrderedComponents\<close> visit the maps, one run returns a sequence exactly when the
  other does, and it is the same sequence. A returned sequence lists every registered
  name once, and each of its elements was ready when it was emitted (registered, not yet
  emitted, with all its declared dependencies emitted) and was the least name, in the
  lexicographic order of strings, among the names that were ready at that moment.
\<close>

theorem C7_order_deterministic:
  assumes "range_of cs ks1" "range_of cs ks2" "range_of cs ks3"
    and "range_of cs ks1'" "range_of cs ks2'" "range_of cs ks3'"
  shows "(getOrderedComponents cs ks1 ks2 ks3 = Inr xs
            \<longleftrightarrow> getOrderedComponents cs ks1' ks2' ks3' = Inr xs)
    \<and> (getOrderedComponents cs ks1 ks2 ks3 = Inr xs \<longrightarrow>
          distinct xs \<and> set xs = fmdom' cs
          \<and> (\<forall>i<length xs.
                xs ! i \<in> fmdom' cs \<and> xs ! i \<notin> set (take i xs)
                \<and> set (deps_of cs (xs ! i)) \<subseteq> set (take i xs)
                \<and> (\<forall>n\<in>fmdom' cs.
                      n \<notin> set (take i xs) \<and> set (deps_of cs n) \<subseteq> set (take i xs)
                        \<longrightarrow> xs ! i \<le> n)))"
proof -
  have one: "getOrderedComponents cs js1 js2 js3 = Inr xs"
    if "range_of cs ks1" "range_of cs ks2" "range_of cs ks3"
      "range_of cs js1" "range_of cs js2" "range_of cs js3"
      "getOrderedComponents cs ks1 ks2 ks3 = Inr xs" for ks1 ks2 ks3 js1 js2 js3
  proof -
    note a = getOrderedComponents_Inr[OF that(1,2,3,7)]
    from getOrderedComponents_acyclic[OF that(4,5,6) a(1,4)] obtain ys where
      ys: "getOrderedComponents cs js1 js2 js3 = Inr ys" "least_ready_sequence cs ys"
        "set ys = fmdom' cs" by blast
    from least_ready_sequence_unique[OF a(2) ys(2) a(3) ys(3)] ys(1) show ?thesis by simp
  qed
  have least: "distinct xs \<and> set xs = fmdom' cs
          \<and> (\<forall>i<length xs.
                xs ! i \<in> fmdom' cs \<and> xs ! i \<notin> set (take i xs)
                \<and> set (deps_of cs (xs ! i)) \<subseteq> set (take i xs)
                \<and> (\<forall>n\<in>fmdom' cs.
                      n \<notin> set (take i xs) \<and> set (deps_of cs n) \<subseteq> set (take i xs)
                        \<longrightarrow> xs ! i \<le> n))"
    if ok: "getOrderedComponents cs ks1 ks2 ks3 = Inr xs"
  proof -
    note a = getOrderedComponents_Inr[OF assms(1,2,3) ok]
    from a(2) have "\<forall>i<length xs.
                xs ! i \<in> fmdom' cs \<and> xs ! i \<notin> set (take i xs)
                \<and> set (deps_of cs (xs ! i)) \<subseteq> set (take i xs)
                \<and> (\<forall>n\<in>fmdom' cs.
                      n \<notin> set (take i xs) \<and> set (deps_of cs n) \<subseteq> set (take i xs)
                        \<longrightarrow> xs ! i \<le> n)"
      by (simp add: least_ready_sequence_def ready_def)
    with least_ready_sequence_props(1)[OF a(2)] a(3) show ?thesis by blast
  qed
  from one[OF assms(1,2,3) assms(4,5,6)] one[OF assms(4,5,6) assms(1,2,3)] least
  show ?thesis by blast
qed

lemma compABC_ranges: "valid_ranges compABC rangesABC" "valid_ranges compABC rangesABC'"
  by (auto simp: valid_ranges_def range_of_def rangesABC_def rangesABC'_def compABC_def)

lemma compABC_order:
  "getOrderedComponents compABC (init_range rangesABC) (build_range rangesABC) (queue_range rangesABC)
     = Inr [''compA'', ''compB'', ''compC'']"
  by code_simp

lemma compTie_ranges: "valid_ranges compTie rangesABC" "valid_ranges compTie rangesABC'"
  by (auto simp: valid_ranges_def range_of_def rangesABC_def rangesABC'_def compTie_def)

lemma compTie_order:
  "getOrderedComponents compTie (init_range rangesABC) (build_range rangesABC) (queue_range rangesABC)
     = Inr [''compB'', ''compA'', ''compC'']"
  by code_simp

theorem C7_order_deterministic_witness:
  "range_of compTie (init_range rangesABC) \<and> range_of compTie (build_range rangesABC)
   \<and> range_of compTie (queue_range rangesABC)
   \<and> range_of compTie (init_range rangesABC') \<and> range_of compTie (build_range rangesABC')
   \<and> range_of compTie (queue_range rangesABC')
   \<and> getOrderedComponents compTie (init_range rangesABC) (build_range rangesABC)
        (queue_range rangesABC) = Inr [''compB'', ''compA'', ''compC'']
   \<and> getOrderedComponents compTie (init_range rangesABC') (build_range rangesABC')
        (queue_range rangesABC') = Inr [''compB'', ''compA'', ''compC'']
   \<and> ''compB'' \<in> ready compTie (set (take 0 [''compB'', ''compA'', ''compC'']))
   \<and> ''compC'' \<in> ready compTie (set (take 0 [''compB'', ''compA'', ''compC'']))
   \<and> ''compA'' \<notin> ready compTie (set (take 0 [''compB'', ''compA'', ''compC'']))
   \<and> [''compB'', ''compA'', ''compC''] ! 0 \<le> ''compC''
   \<and> ''compA'' \<in> ready compTie (set (take 1 [''compB'', ''compA'', ''compC'']))
   \<and> ''compC'' \<in> ready compTie (set (take 1 [''compB'', ''compA'', ''compC'']))
   \<and> [''compB'', ''compA'', ''compC''] ! 1 \<le> ''compC''
   \<and> set (deps_of compTie ([''compB'', ''compA'', ''compC''] ! 1))
        \<subseteq> set (take 1 [''compB'', ''compA'', ''compC''])"
proof -
  let ?xs = "[''compB'', ''compA'', ''compC'']"
  note r = valid_rangesD[OF compTie_ranges(1)] valid_rangesD[OF compTie_ranges(2)]
  note t = C7_order_deterministic[OF r(2,3,4) r(6,7,8), of ?xs]
  from t compTie_order
  have o': "getOrderedComponents compTie (init_range rangesABC') (build_range rangesABC')
        (queue_range rangesABC') = Inr ?xs" by simp
  from t compTie_order have q: "\<forall>i<length ?xs.
                ?xs ! i \<in> fmdom' compTie \<and> ?xs ! i \<notin> set (take i ?xs)
                \<and> set (deps_of compTie (?xs ! i)) \<subseteq> set (take i ?xs)
                \<and> (\<forall>n\<in>fmdom' compTie.
                      n \<notin> set (take i ?xs) \<and> set (deps_of compTie n) \<subseteq> set (take i ?xs)
                        \<longrightarrow> ?xs ! i \<le> n)"
    by blast
  have d: "fmdom' compTie = {''compA'', ''compB'', ''compC''}"
    "deps_of compTie ''compA'' = [''compB'']" "deps_of compTie ''compB'' = []"
    "deps_of compTie ''compC'' = []"
    by (auto simp: compTie_def deps_of_def GetDependencies_def Define_def)
  have r0: "''compB'' \<in> ready compTie (set (take 0 ?xs))"
    "''compC'' \<in> ready compTie (set (take 0 ?xs))"
    "''compA'' \<notin> ready compTie (set (take 0 ?xs))"
    by (simp_all add: ready_def d)
  have r1: "''compA'' \<in> ready compTie (set (take 1 ?xs))"
    "''compC'' \<in> ready compTie (set (take 1 ?xs))"
    by (simp_all add: ready_def d)
  from q[rule_format, of 0] r0(2) have l0: "?xs ! 0 \<le> ''compC''"
    by (simp add: ready_def)
  from q[rule_format, of 1] r1(2) have l1: "?xs ! 1 \<le> ''compC''"
    and s1: "set (deps_of compTie (?xs ! 1)) \<subseteq> set (take 1 ?xs)"
    by (simp_all add: ready_def)
  from r compTie_order o' r0 r1 l0 l1 s1 show ?thesis by blast
qed

section \<open>Starting and stopping the system\<close>

lemma System_Start_NoneE:
  assumes "System_Start L r s e = (None, s', e')" "\<not> sys_started s"
  obtains order s1 where "checkCyclicDependencies (components s) (check_range r) = None"
    and "getOrderedComponents (components s) (init_range r) (build_range r) (queue_range r) = Inr order"
    and "start_components L order s e = (None, s1, e')" and "s' = s1\<lparr>sys_started := True\<rparr>"
proof -
  from assms have c: "checkCyclicDependencies (components s) (check_range r) = None"
    by (cases "checkCyclicDependencies (components s) (check_range r)")
       (auto simp: System_Start_def)
  from assms c obtain order where
    o: "getOrderedComponents (components s) (init_range r) (build_range r) (queue_range r) = Inr order"
    by (cases "getOrderedComponents (components s) (init_range r) (build_range r) (queue_range r)")
       (auto simp: System_Start_def)
  obtain r1 s1 e1 where st: "start_components L order s e = (r1, s1, e1)"
    by (cases "start_components L order s e")
  from assms c o st have "r1 = None" "s' = s1\<lparr>sys_started := True\<rparr>" "e' = e1"
    by (cases r1; simp add: System_Start_def)+
  with c o st that show thesis by simp
qed

lemma System_Start_running:
  assumes "valid_ranges (components s) r" "\<not> sys_started s"
    and "System_Start L r s e = (None, s', e')"
  shows "running s'" and "same_graph (components s) (components s')"
proof -
  note r = valid_rangesD[OF assms(1)]
  from assms(3,2) obtain order s1 where
    c: "checkCyclicDependencies (components s) (check_range r) = None" and
    o: "getOrderedComponents (components s) (init_range r) (build_range r) (queue_range r) = Inr order" and
    st: "start_components L order s e = (None, s1, e')" and s': "s' = s1\<lparr>sys_started := True\<rparr>"
    by (rule System_Start_NoneE)
  note g = getOrderedComponents_Inr[OF r(2,3,4) o]
  note n = start_components_None[OF st least_ready_sequence_props(1)[OF g(2)]]
  from n s' show sg: "same_graph (components s) (components s')" by simp
  have "is_started (components s') n" if "n \<in> fmdom' (components s')" for n
  proof -
    from that same_graph_dom[OF sg] g(3) have "n \<in> set order" by simp
    with n obtain c l where "fmlookup (components s1) n
               = Some (if started c then c else c\<lparr>result := Some l, started := True\<rparr>)"
      by blast
    with s' show ?thesis by (simp add: is_started_def)
  qed
  moreover from g(1,4) have "deps_registered (components s')" "acyclic (dep_rel (components s'))"
    by (simp_all only: same_graph_deps_registered[OF sg] same_graph_dep_rel[OF sg])
  moreover from s' have "sys_started s'" by simp
  ultimately show "running s'"
    by (simp add: running_def)
qed

text \<open>
  C9: on a system that is up, \<^verbatim>\<open>Stop\<close> computes the order and invokes the lifecycle stop
  of every component once, in the reverse of that order, each with the system's whole
  context and whatever the earlier stops returned. It returns nil when no stop failed,
  and otherwise the last failure, wrapped as \<^verbatim>\<open>failed to stop component n: failed to stop
  component: \<close> followed by the lifecycle's message, for the component \<open>n\<close> that failed
  last. The system is not marked started afterwards.
\<close>

theorem C9_Stop_stops_all:
  assumes "valid_ranges (components s) r" and "running s"
  shows "\<exists>order outs s' e'.
      getOrderedComponents (components s) (init_range r) (build_range r) (queue_range r) = Inr order
    \<and> length outs = length order
    \<and> System_Stop L r s e = (last_stop_error None (zip (rev order) outs), s', e')
    \<and> calls e' = calls e @
         map (\<lambda>(n, out). StopCall (instance_lc (the (fmlookup (components s) n))) (sys_context s) out)
             (zip (rev order) outs)
    \<and> \<not> sys_started s'"
proof -
  note r = valid_rangesD[OF assms(1)]
  from assms(2) have up: "sys_started s" and reg: "deps_registered (components s)"
    and ac: "acyclic (dep_rel (components s))"
    and st: "\<forall>n\<in>fmdom' (components s). is_started (components s) n"
    by (simp_all add: running_def)
  from getOrderedComponents_acyclic[OF r(2,3,4) reg ac] obtain order where
    o: "getOrderedComponents (components s) (init_range r) (build_range r) (queue_range r) = Inr order"
    and lrs: "least_ready_sequence (components s) order" and all: "set order = fmdom' (components s)"
    by blast
  from least_ready_sequence_props(1)[OF lrs] have d: "distinct (rev order)" by simp
  from st all have "\<forall>n\<in>set (rev order). is_started (components s) n" by simp
  from stop_components_run[OF d this, of L e None] obtain outs s1 e1 where
    a: "length outs = length (rev order)"
      "stop_components L (rev order) s e None = (last_stop_error None (zip (rev order) outs), s1, e1)"
      "calls e1 = calls e @
          map (\<lambda>(n, out). StopCall (instance_lc (the (fmlookup (components s) n))) (sys_context s) out)
              (zip (rev order) outs)"
    by blast
  from up o a(2) have "System_Stop L r s e
      = (last_stop_error None (zip (rev order) outs), s1\<lparr>sys_started := False\<rparr>, e1)"
    by (simp add: System_Stop_def)
  with o a(1,3) show ?thesis by auto
qed

lemma startedABC_start:
  "fst (System_Start (MockComponent Map.empty Map.empty) rangesABC (CreateSystem compABC) mock_env0)
     = None"
  by code_simp

lemma startedABC_running: "running startedABC" "same_graph compABC (components startedABC)"
proof -
  have h: "valid_ranges (components (CreateSystem compABC)) rangesABC"
    "\<not> sys_started (CreateSystem compABC)"
    using compABC_ranges(1) by (simp_all add: CreateSystem_def)
  obtain e' where "System_Start (MockComponent Map.empty Map.empty) rangesABC (CreateSystem compABC)
      mock_env0 = (None, startedABC, e')"
    using startedABC_start unfolding startedABC_def
    by (metis prod.collapse)
  from System_Start_running[OF h this] show "running startedABC"
    "same_graph compABC (components startedABC)"
    by (simp_all add: CreateSystem_def)
qed

lemma startedABC_ranges: "valid_ranges (components startedABC) rangesABC'"
  using compABC_ranges(2) same_graph_valid_ranges[OF startedABC_running(2)] by simp

theorem C9_Stop_stops_all_witness:
  "valid_ranges (components startedABC) rangesABC'
   \<and> running startedABC
   \<and> \<not> sys_started (fst (snd (System_Stop
          (MockComponent Map.empty [''compC'' \<mapsto> ErrorString ''c failed'', ''compB'' \<mapsto> ErrorString ''b failed''])
          rangesABC' startedABC mock_env0)))
   \<and> fst (System_Stop
          (MockComponent Map.empty [''compC'' \<mapsto> ErrorString ''c failed'', ''compB'' \<mapsto> ErrorString ''b failed''])
          rangesABC' startedABC mock_env0)
       = Some (stop_error (''compB'', ErrorString ''b failed''))
   \<and> map call_receiver (calls (snd (snd (System_Stop
          (MockComponent Map.empty [''compC'' \<mapsto> ErrorString ''c failed'', ''compB'' \<mapsto> ErrorString ''b failed''])
          rangesABC' startedABC mock_env0))))
       = [''compC'', ''compB'', ''compA'']"
proof -
  let ?L = "MockComponent Map.empty [''compC'' \<mapsto> ErrorString ''c failed'', ''compB'' \<mapsto> ErrorString ''b failed'']"
  from C9_Stop_stops_all[OF startedABC_ranges startedABC_running(1), of ?L mock_env0]
  have "\<not> sys_started (fst (snd (System_Stop ?L rangesABC' startedABC mock_env0)))"
    by auto
  moreover have "fst (System_Stop ?L rangesABC' startedABC mock_env0)
       = Some (stop_error (''compB'', ErrorString ''b failed''))"
    by code_simp
  moreover have "map call_receiver (calls (snd (snd (System_Stop ?L rangesABC' startedABC mock_env0))))
       = [''compC'', ''compB'', ''compA'']"
    by code_simp
  ultimately show ?thesis using startedABC_ranges startedABC_running(1) by simp
qed

text \<open>
  C6: for an acyclic component set whose declared dependencies are all registered,
  \<^verbatim>\<open>getOrderedComponents\<close> returns a sequence that lists every registered name once, each
  after all the dependencies its component declares. On a system that is up, \<^verbatim>\<open>Stop\<close>
  invokes the lifecycle stops along the reverse of the sequence that it computes itself,
  from the orders of its own \<^verbatim>\<open>range\<close> loops.
\<close>

theorem C6_topological_order_reversed_by_Stop:
  assumes "valid_ranges (components s) r" and "deps_registered (components s)"
    and "acyclic (dep_rel (components s))"
  shows "\<exists>order.
      getOrderedComponents (components s) (init_range r) (build_range r) (queue_range r) = Inr order
    \<and> distinct order \<and> set order = fmdom' (components s)
    \<and> (\<forall>i<length order. set (deps_of (components s) (order ! i)) \<subseteq> set (take i order))
    \<and> (running s \<longrightarrow>
          (\<exists>outs. length outs = length order
             \<and> calls (snd (snd (System_Stop L r s e))) = calls e @
                 map (\<lambda>(n, out). StopCall (instance_lc (the (fmlookup (components s) n)))
                                   (sys_context s) out)
                     (zip (rev order) outs)))"
proof -
  note r = valid_rangesD[OF assms(1)]
  from getOrderedComponents_acyclic[OF r(2,3,4) assms(2,3)] obtain order where
    o: "getOrderedComponents (components s) (init_range r) (build_range r) (queue_range r) = Inr order"
    and lrs: "least_ready_sequence (components s) order" and all: "set order = fmdom' (components s)"
    by blast
  note p = least_ready_sequence_props[OF lrs]
  have "\<exists>outs. length outs = length order
             \<and> calls (snd (snd (System_Stop L r s e))) = calls e @
                 map (\<lambda>(n, out). StopCall (instance_lc (the (fmlookup (components s) n)))
                                   (sys_context s) out)
                     (zip (rev order) outs)" if "running s"
  proof -
    from that have up: "sys_started s"
      and st: "\<forall>n\<in>fmdom' (components s). is_started (components s) n"
      by (simp_all add: running_def)
    from p(1) have d: "distinct (rev order)" by simp
    from st all have "\<forall>n\<in>set (rev order). is_started (components s) n" by simp
    from stop_components_run[OF d this, of L e None] obtain outs s1 e1 where
      a: "length outs = length (rev order)"
        "stop_components L (rev order) s e None = (last_stop_error None (zip (rev order) outs), s1, e1)"
        "calls e1 = calls e @
            map (\<lambda>(n, out). StopCall (instance_lc (the (fmlookup (components s) n))) (sys_context s) out)
                (zip (rev order) outs)"
      by blast
    from up o a(2) have "snd (snd (System_Stop L r s e)) = e1"
      by (simp add: System_Stop_def)
    with a(1,3) show ?thesis by auto
  qed
  with o p(1,3) all show ?thesis by blast
qed

theorem C6_topological_order_reversed_by_Stop_witness:
  "valid_ranges (components startedABC) rangesABC'
   \<and> deps_registered (components startedABC) \<and> acyclic (dep_rel (components startedABC))
   \<and> running startedABC
   \<and> getOrderedComponents (components startedABC) (init_range rangesABC') (build_range rangesABC')
        (queue_range rangesABC') = Inr [''compA'', ''compB'', ''compC'']
   \<and> set (deps_of (components startedABC) ([''compA'', ''compB'', ''compC''] ! 2))
        \<subseteq> set (take 2 [''compA'', ''compB'', ''compC''])
   \<and> map call_receiver (calls (snd (snd (System_Stop (MockComponent Map.empty Map.empty)
          rangesABC' startedABC mock_env0))))
       = rev [''compA'', ''compB'', ''compC'']"
proof -
  let ?L = "MockComponent Map.empty Map.empty"
  from startedABC_running(1) have h: "deps_registered (components startedABC)"
    "acyclic (dep_rel (components startedABC))"
    by (simp_all add: running_def)
  have o: "getOrderedComponents (components startedABC) (init_range rangesABC') (build_range rangesABC')
        (queue_range rangesABC') = Inr [''compA'', ''compB'', ''compC'']"
    by code_simp
  from C6_topological_order_reversed_by_Stop[OF startedABC_ranges h, of ?L mock_env0]
  obtain order where
    "getOrderedComponents (components startedABC) (init_range rangesABC') (build_range rangesABC')
        (queue_range rangesABC') = Inr order"
    and t: "\<forall>i<length order. set (deps_of (components startedABC) (order ! i)) \<subseteq> set (take i order)"
    by blast
  with o have "order = [''compA'', ''compB'', ''compC'']" by simp
  with t[rule_format, of 2]
  have "set (deps_of (components startedABC) ([''compA'', ''compB'', ''compC''] ! 2))
        \<subseteq> set (take 2 [''compA'', ''compB'', ''compC''])"
    by simp
  moreover have "map call_receiver (calls (snd (snd (System_Stop ?L rangesABC' startedABC mock_env0))))
       = rev [''compA'', ''compB'', ''compC'']"
    by code_simp
  ultimately show ?thesis using startedABC_ranges h startedABC_running(1) o by blast
qed

lemma System_Start_SomeE:
  assumes "System_Start L r s e = (Some err, s', e')" "\<not> sys_started s"
    and "checkCyclicDependencies (components s) (check_range r) = None"
    and "getOrderedComponents (components s) (init_range r) (build_range r) (queue_range r) = Inr order"
  shows "start_components L order s e = (Some err, s', e')"
proof -
  obtain r1 s1 e1 where st: "start_components L order s e = (r1, s1, e1)"
    by (cases "start_components L order s e")
  with assms show ?thesis
    by (cases r1) (simp_all add: System_Start_def)
qed

lemma nth_in_take_less:
  assumes "distinct xs" "k < length xs" "j \<le> length xs" "xs ! k \<in> set (take j xs)"
  shows "k < j"
proof -
  from assms(4) obtain i where i: "i < length (take j xs)" "take j xs ! i = xs ! k"
    by (auto simp: in_set_conv_nth)
  then have "i < j" "i < length xs" "xs ! i = xs ! k" using assms(3) by simp_all
  with assms(1,2) have "i = k" by (simp add: nth_eq_iff_index_eq)
  with \<open>i < j\<close> show ?thesis by simp
qed

text \<open>
  C8: take a system that is not started, none of whose component records is started, with
  a valid graph, and let \<^verbatim>\<open>Start\<close> return an error. Then the error comes from the start of
  one component \<open>B\<close> of the computed order: it is the lifecycle's error wrapped as
  \<^verbatim>\<open>failed to start component B: failed to start component: \<close>. The lifecycle starts
  invoked are those of the components before \<open>B\<close> in the order, once each and all with
  success, and then the failed one of \<open>B\<close>. The components before \<open>B\<close> are started; the
  records of \<open>B\<close> and of the components after it are as they were (not started). Every
  dependency of \<open>B\<close> is before \<open>B\<close>, every component that depends on \<open>B\<close> is after it, and
  the system is not marked started.
\<close>

theorem C8_failed_start_aborts:
  assumes "valid_ranges (components s) r" and "\<not> sys_started s"
    and "\<forall>n\<in>fmdom' (components s). \<not> is_started (components s) n"
    and "deps_registered (components s)" and "acyclic (dep_rel (components s))"
    and "System_Start L r s e = (Some err, s', e')"
  shows "\<exists>order k c res er.
      getOrderedComponents (components s) (init_range r) (build_range r) (queue_range r) = Inr order
    \<and> k < length order \<and> fmlookup (components s) (order ! k) = Some c
    \<and> err = Errorf_w (''failed to start component '' @ order ! k @ '': '')
              (Errorf_w ''failed to start component: '' er)
    \<and> calls e' = calls e @
         map (\<lambda>n. StartCall (instance_lc (the (fmlookup (components s) n)))
                     (dependency_view (components s) (deps_of (components s) n))
                     (the (sys_context s' n)) None)
             (take k order)
         @ [StartCall (instance_lc c)
              (dependency_view (components s) (deps_of (components s) (order ! k))) res (Some er)]
    \<and> (\<forall>n\<in>set (take k order). is_started (components s') n)
    \<and> (\<forall>n\<in>set (drop k order). fmlookup (components s') n = fmlookup (components s) n)
    \<and> set (deps_of (components s) (order ! k)) \<subseteq> set (take k order)
    \<and> (\<forall>n\<in>fmdom' (components s).
          order ! k \<in> set (deps_of (components s) n) \<longrightarrow> n \<in> set (drop (Suc k) order))
    \<and> \<not> sys_started s'"
proof -
  let ?cs = "components s"
  note r = valid_rangesD[OF assms(1)]
  from checkCyclicDependencies_acyclic_iff[OF r(1)] assms(5)
  have chk: "checkCyclicDependencies ?cs (check_range r) = None" by simp
  from getOrderedComponents_acyclic[OF r(2,3,4) assms(4,5)] obtain order where
    o: "getOrderedComponents ?cs (init_range r) (build_range r) (queue_range r) = Inr order"
    and lrs: "least_ready_sequence ?cs order" and all: "set order = fmdom' ?cs"
    by blast
  note p = least_ready_sequence_props[OF lrs]
  from System_Start_SomeE[OF assms(6,2) chk o]
  have st: "start_components L order s e = (Some err, s', e')" .
  have pre1: "\<forall>n\<in>set order. n \<in> fmdom' ?cs" using all by simp
  have pre2: "\<forall>i<length order. \<forall>d\<in>set (deps_of ?cs (order ! i)).
           d \<in> set (take i order) \<or> is_started ?cs d"
    using p(3) by blast
  from start_components_Some[OF st p(1) pre1 pre2] obtain k e1 c res er w' where
    k: "k < length order" and
    pre: "start_components L (take k order) s e = (None, s', e1)" and
    c: "fmlookup ?cs (order ! k) = Some c" and
    err: "err = Errorf_w (''failed to start component '' @ order ! k @ '': '')
               (Errorf_w ''failed to start component: '' er)" and
    e': "e' = \<lparr>world = w', calls = calls e1 @
               [StartCall (instance_lc c) (dependency_view ?cs (dependencies c)) res (Some er)]\<rparr>"
    by blast
  from c have dc: "deps_of ?cs (order ! k) = dependencies c"
    by (simp add: deps_of_def GetDependencies_def)
  from p(1) have dt: "distinct (take k order)" by simp
  note n = start_components_None[OF pre dt]
  have fr: "filter (\<lambda>n. \<not> is_started ?cs n) (take k order) = take k order"
  proof (rule filter_True, rule ballI)
    fix x assume "x \<in> set (take k order)"
    then have "x \<in> set order" by (rule in_set_takeD)
    with all assms(3) show "\<not> is_started ?cs x" by simp
  qed
  from n fr e' dc have g1: "calls e' = calls e @
         map (\<lambda>n. StartCall (instance_lc (the (fmlookup ?cs n)))
                     (dependency_view ?cs (deps_of ?cs n))
                     (the (sys_context s' n)) None)
             (take k order)
         @ [StartCall (instance_lc c) (dependency_view ?cs (deps_of ?cs (order ! k))) res (Some er)]"
    by simp
  have g2: "is_started (components s') m" if "m \<in> set (take k order)" for m
  proof -
    from n that obtain c2 l where "fmlookup (components s') m
               = Some (if started c2 then c2 else c2\<lparr>result := Some l, started := True\<rparr>)"
      by blast
    then show ?thesis by (simp add: is_started_def)
  qed
  have g3: "fmlookup (components s') m = fmlookup ?cs m" if "m \<in> set (drop k order)" for m
  proof -
    from p(1) have "distinct (take k order @ drop k order)" by simp
    with that have "m \<notin> set (take k order)" by (metis distinct_append disjoint_iff)
    with n show ?thesis by blast
  qed
  from p(3) k have g4: "set (deps_of ?cs (order ! k)) \<subseteq> set (take k order)" by blast
  have g5: "m \<in> set (drop (Suc k) order)"
    if "m \<in> fmdom' ?cs" "order ! k \<in> set (deps_of ?cs m)" for m
  proof -
    from that(1) all have "m \<in> set order" by simp
    then obtain j where j: "j < length order" "order ! j = m"
      by (auto simp: in_set_conv_nth)
    with p(3) that(2) have "order ! k \<in> set (take j order)" by blast
    from nth_in_take_less[OF p(1) k _ this] j(1) have "k < j" by simp
    with j have "j - Suc k < length (drop (Suc k) order)"
      "drop (Suc k) order ! (j - Suc k) = m"
      by simp_all
    then show ?thesis by (metis nth_mem)
  qed
  from n assms(2) have g6: "\<not> sys_started s'" by simp
  from o k c err g1 g2 g3 g4 g5 g6 show ?thesis by blast
qed


lemma compAB_ranges: "valid_ranges compAB rangesAB"
  by (auto simp: valid_ranges_def range_of_def rangesAB_def compAB_def)

lemma compAB_order:
  "getOrderedComponents compAB (init_range rangesAB) (build_range rangesAB) (queue_range rangesAB)
     = Inr [''compA'', ''compB'']"
  by code_simp

lemma compAB_fresh: "\<forall>n\<in>fmdom' compAB. \<not> is_started compAB n"
  by (simp add: compAB_def is_started_def Define_def)

theorem C8_failed_start_aborts_witness:
  "valid_ranges (components (CreateSystem compAB)) rangesAB
   \<and> \<not> sys_started (CreateSystem compAB)
   \<and> fmdom' (components (CreateSystem compAB)) = {''compA'', ''compB''}
   \<and> \<not> is_started (components (CreateSystem compAB)) ''compA''
   \<and> \<not> is_started (components (CreateSystem compAB)) ''compB''
   \<and> deps_registered (components (CreateSystem compAB))
   \<and> acyclic (dep_rel (components (CreateSystem compAB)))
   \<and> fst (System_Start (MockComponent [''compB'' \<mapsto> ErrorString ''start error''] Map.empty)
            rangesAB (CreateSystem compAB) mock_env0)
       = Some (WrapError ''failed to start component compB: failed to start component: start error''
                (WrapError ''failed to start component: start error'' (ErrorString ''start error'')))
   \<and> \<not> sys_started (fst (snd (System_Start
            (MockComponent [''compB'' \<mapsto> ErrorString ''start error''] Map.empty)
            rangesAB (CreateSystem compAB) mock_env0)))
   \<and> map call_receiver (calls (snd (snd (System_Start
            (MockComponent [''compB'' \<mapsto> ErrorString ''start error''] Map.empty)
            rangesAB (CreateSystem compAB) mock_env0))))
       = [''compA'', ''compB'']
   \<and> is_started (components (fst (snd (System_Start
            (MockComponent [''compB'' \<mapsto> ErrorString ''start error''] Map.empty)
            rangesAB (CreateSystem compAB) mock_env0)))) ''compA''
   \<and> \<not> is_started (components (fst (snd (System_Start
            (MockComponent [''compB'' \<mapsto> ErrorString ''start error''] Map.empty)
            rangesAB (CreateSystem compAB) mock_env0)))) ''compB''"
proof -
  let ?L = "MockComponent [''compB'' \<mapsto> ErrorString ''start error''] Map.empty"
  let ?s = "CreateSystem compAB"
  have c: "components ?s = compAB" by (simp add: CreateSystem_def)
  have h1: "valid_ranges (components ?s) rangesAB" using compAB_ranges c by simp
  have h2: "\<not> sys_started ?s" by (simp add: CreateSystem_def)
  have h3: "\<forall>n\<in>fmdom' (components ?s). \<not> is_started (components ?s) n"
    using compAB_fresh c by simp
  note g = getOrderedComponents_Inr[OF valid_rangesD(2,3,4)[OF compAB_ranges] compAB_order]
  from g c have h4: "deps_registered (components ?s)" and h5: "acyclic (dep_rel (components ?s))"
    by simp_all
  have f: "fst (System_Start ?L rangesAB ?s mock_env0)
       = Some (WrapError ''failed to start component compB: failed to start component: start error''
                (WrapError ''failed to start component: start error'' (ErrorString ''start error'')))"
    by code_simp
  then obtain s' e' where
    h6: "System_Start ?L rangesAB ?s mock_env0
       = (Some (WrapError ''failed to start component compB: failed to start component: start error''
                (WrapError ''failed to start component: start error'' (ErrorString ''start error''))),
          s', e')"
    by (metis prod.collapse)
  from C8_failed_start_aborts[OF h1 h2 h3 h4 h5 h6] have "\<not> sys_started s'" by blast
  with h6 have t: "\<not> sys_started (fst (snd (System_Start ?L rangesAB ?s mock_env0)))" by simp
  have a: "map call_receiver (calls (snd (snd (System_Start ?L rangesAB ?s mock_env0))))
       = [''compA'', ''compB'']"
    by code_simp
  have b: "is_started (components (fst (snd (System_Start ?L rangesAB ?s mock_env0)))) ''compA''"
    by code_simp
  have d: "\<not> is_started (components (fst (snd (System_Start ?L rangesAB ?s mock_env0)))) ''compB''"
    by code_simp
  have h3': "fmdom' (components ?s) = {''compA'', ''compB''}"
    "\<not> is_started (components ?s) ''compA''" "\<not> is_started (components ?s) ''compB''"
    unfolding c by (auto simp: compAB_def is_started_def Define_def)
  from h1 h2 h3' h4 h5 f t a b d show ?thesis by blast
qed

section \<open>What the dependants see, and restarting\<close>

text \<open>
  C1 at a concrete input: \<open>api\<close> declares the dependency \<open>db\<close>, and the lifecycle start of
  \<open>db\<close> returns the handle \<open>db.handle\<close>. \<^verbatim>\<open>Start\<close> succeeds; the start of \<open>db\<close> is invoked
  first, and its return value \<open>db.handle\<close> is stored in the record's \<^verbatim>\<open>result\<close> and in the
  system's context. The context passed to the start of \<open>api\<close> has the declared name
  \<open>db\<close> and not the name \<open>api\<close>, but maps \<open>db\<close> to the wrapped instance \<open>db\<close>, not to the
  stored result \<open>db.handle\<close>.
\<close>

theorem C1_context_holds_instance:
  "fst (System_Start HandleComponent rangesHandles (CreateSystem compHandles) handle_env0) = None
   \<and> map call_receiver
         (calls (snd (snd (System_Start HandleComponent rangesHandles (CreateSystem compHandles)
                             handle_env0))))
       = [''db'', ''api'']
   \<and> call_context
         (calls (snd (snd (System_Start HandleComponent rangesHandles (CreateSystem compHandles)
                             handle_env0))) ! 1) ''db''
       = Some ''db''
   \<and> call_context
         (calls (snd (snd (System_Start HandleComponent rangesHandles (CreateSystem compHandles)
                             handle_env0))) ! 1) ''api''
       = None
   \<and> map_option result
         (fmlookup (components (fst (snd (System_Start HandleComponent rangesHandles
                                            (CreateSystem compHandles) handle_env0)))) ''db'')
       = Some (Some ''db.handle'')
   \<and> sys_context (fst (snd (System_Start HandleComponent rangesHandles (CreateSystem compHandles)
                               handle_env0))) ''db''
       = Some ''db.handle''"
  by code_simp










end
